theory Spec2Isabelle
  imports Complex_Main "HOL-Library.Multiset"
begin

section \<open>Multi-device nearest-neighbour search: the dispatcher and its workers\<close>

text \<open>
  The development embeds the two functions of the notebook
  \<^verbatim>\<open>multi-gpu-threading-rmm-numba.ipynb\<close>: the thread function
  \<^verbatim>\<open>_get_nearest_multi(q, cid)\<close> and the dispatcher
  \<^verbatim>\<open>get_nearest(obs_points, ref_points, batch_size, multigpu, n_gpus)\<close>.

  Conventions of the embedding.
  \<^item> Python integers are \<open>int\<close>; \<^verbatim>\<open>int(a / b)\<close> (true division, then truncation
    towards zero) is \<open>tdiv a b\<close>; the two agree as long as the operands are below
    \<open>2 ^ 53\<close>, which array lengths are. Division by zero raises.
  \<^item> A device array that has been allocated and not yet stored to holds \<open>None\<close> in a slot;
    index values are natural numbers and distances are taken from a linear order
    (the reals for the haversine distance), so that the rounding of 32-bit floats and the
    width of the index type are not modelled.
  \<^item> The output arrays are shared by every job: they form the state \<open>mem\<close> that is passed
    through the workers; \<open>stores\<close> lists the output index of every store, in order.
  \<^item> A call returns \<open>Some (Inr result)\<close>, raises (\<open>Some (Inl error)\<close>) or never returns
    (\<open>None\<close>: a worker blocked in \<^verbatim>\<open>q.get()\<close> is joined forever).
\<close>

subsection \<open>Errors, policies, the environment\<close>

datatype error =
  ZeroDivisionError | IndexError | KernelExecutionError | DeviceBindingError | CudaSupportError

text \<open>An argument that is either the string \<^verbatim>\<open>"auto"\<close> or a number.\<close>

datatype 'a policy = Auto | Explicit 'a

text \<open>
  What the CUDA runtime answers: how many devices \<^verbatim>\<open>cuda.list_devices()\<close> lists,
  whether \<^verbatim>\<open>cuda.select_device(cid)\<close> succeeds, and whether the two kernel launches and
  \<^verbatim>\<open>cuda.synchronize()\<close> of device \<open>cid\<close> on the range \<open>[start, end)\<close> succeed; a
  failure is one that happens before the job has stored anything.
\<close>

record env =
  n_devices :: nat
  device_ok :: "nat \<Rightarrow> bool"
  kernel_ok :: "nat \<Rightarrow> int \<Rightarrow> int \<Rightarrow> bool"

definition tdiv :: "int \<Rightarrow> int \<Rightarrow> int" where
  "tdiv a b = sgn a * sgn b * (\<bar>a\<bar> div \<bar>b\<bar>)"

subsection \<open>The distance and the two reduction kernels\<close>

type_synonym point = "real \<times> real"

text \<open>
  Modelled from the spec: the device function of the DistanceKernel (section 4.1), which
  lives in the module \<^verbatim>\<open>src.solvers\<close> that is not among the sources. Coordinates are
  (latitude, longitude) in radians, \<open>R\<close> is the radius of the sphere.
\<close>

definition haversine :: "real \<Rightarrow> point \<Rightarrow> point \<Rightarrow> real" where
  "haversine R p q =
     (let a = (sin ((fst q - fst p) / 2))\<^sup>2
              + cos (fst p) * cos (fst q) * (sin ((snd q - snd p) / 2))\<^sup>2
      in 2 * R * arcsin (min 1 (sqrt a)))"

text \<open>
  Modelled from the spec: the running minimum of sections 4.2 and 4.3. A candidate is a
  pair (reference index, distance); the incumbent is replaced only by a candidate whose
  distance is strictly less.
\<close>

definition keep_min :: "(nat \<times> 'd::linorder) option \<Rightarrow> (nat \<times> 'd) option \<Rightarrow> (nat \<times> 'd) option" where
  "keep_min best c =
     (case c of
        None \<Rightarrow> best
      | Some (k, d) \<Rightarrow> (case best of None \<Rightarrow> c | Some (i, e) \<Rightarrow> if d < e then c else best))"

text \<open>
  Modelled from the spec: one execution unit of the BlockReducer (section 4.2) scans the
  reference indices \<open>ks\<close> assigned to it, in the order given, for one observation.
\<close>

definition scan_step ::
  "('p \<Rightarrow> 'p \<Rightarrow> 'd::linorder) \<Rightarrow> 'p list \<Rightarrow> 'p \<Rightarrow> nat \<Rightarrow> (nat \<times> 'd) option \<Rightarrow> (nat \<times> 'd) option" where
  "scan_step dfn refs ob k best =
     (if k < length refs then keep_min best (Some (k, dfn ob (refs ! k))) else best)"

definition unit_scan :: "('p \<Rightarrow> 'p \<Rightarrow> 'd::linorder) \<Rightarrow> 'p list \<Rightarrow> 'p \<Rightarrow> nat list \<Rightarrow> (nat \<times> 'd) option" where
  "unit_scan dfn refs ob ks = fold (scan_step dfn refs ob) ks None"

text \<open>
  Modelled from the spec: \<^verbatim>\<open>block_min_reduce\<close> (section 4.2, module \<^verbatim>\<open>src.solvers\<close>).
  The spec partitions the reference set across the \<open>B\<close> units without saying which unit
  scans which references: \<open>asg n b\<close> is the list of reference indices that unit \<open>b\<close>
  scans when there are \<open>n\<close> references. The result has one row of \<open>B\<close> candidates per
  observation (the two arrays of shape \<open>(slice_length, B)\<close>).
\<close>

definition block_min_reduce ::
  "(nat \<Rightarrow> nat \<Rightarrow> nat list) \<Rightarrow> ('p \<Rightarrow> 'p \<Rightarrow> 'd::linorder) \<Rightarrow> 'p list \<Rightarrow> 'p list \<Rightarrow> nat
     \<Rightarrow> (nat \<times> 'd) option list list" where
  "block_min_reduce asg dfn refs d_obs B =
     map (\<lambda>ob. map (\<lambda>b. unit_scan dfn refs ob (asg (length refs) b)) [0..<B]) d_obs"

text \<open>
  Modelled from the spec: \<^verbatim>\<open>global_min_reduce\<close> (section 4.3, module \<^verbatim>\<open>src.solvers\<close>):
  per observation, the minimum over the \<open>B\<close> candidates under the same strict comparison,
  taken pairwise from the first candidate on. The result is the list of values that the
  kernel stores into the two output views it is given.
\<close>

definition global_min_reduce :: "(nat \<times> 'd::linorder) option list list \<Rightarrow> (nat \<times> 'd) option list" where
  "global_min_reduce partials = map (\<lambda>cands. fold (\<lambda>c best. keep_min best c) cands None) partials"

text \<open>
  What the spec asks of an assignment: every unit scans its references by increasing
  index, and the units' lists partition \<open>{0..<n}\<close>.
\<close>

definition valid_assign :: "(nat \<Rightarrow> nat \<Rightarrow> nat list) \<Rightarrow> nat \<Rightarrow> nat \<Rightarrow> bool" where
  "valid_assign asg B n =
     (list_all (\<lambda>b. sorted_wrt (<) (asg n b)) [0..<B]
      \<and> distinct (concat (map (asg n) [0..<B]))
      \<and> set (concat (map (asg n) [0..<B])) = {0..<n})"

text \<open>Two assignments: a stride of \<open>B\<close>, and contiguous chunks.\<close>

definition strided :: "nat \<Rightarrow> nat \<Rightarrow> nat \<Rightarrow> nat list" where
  "strided B n b = filter (\<lambda>k. k mod B = b) [0..<n]"



subsection \<open>Slices and views\<close>

text \<open>
  \<^verbatim>\<open>xs[s:e]\<close>: the bounds are clipped to the length, a negative bound counts from the
  end. A slice of a device array is a view: a store into the view is a store into the
  array at the view's offset.
\<close>

definition clip :: "nat \<Rightarrow> int \<Rightarrow> nat" where
  "clip n i = (if i < 0 then nat (max 0 (i + int n)) else min (nat i) n)"

definition py_slice :: "'a list \<Rightarrow> int \<Rightarrow> int \<Rightarrow> 'a list" where
  "py_slice xs s e = take (clip (length xs) e - clip (length xs) s) (drop (clip (length xs) s) xs)"

definition view_indices :: "nat \<Rightarrow> int \<Rightarrow> int \<Rightarrow> nat \<Rightarrow> nat list" where
  "view_indices n s e k = take k [clip n s..<clip n e]"

definition write_view :: "'a option list \<Rightarrow> int \<Rightarrow> int \<Rightarrow> 'a option list \<Rightarrow> 'a option list" where
  "write_view buf s e vs =
     fold (\<lambda>(i, v) b. b[i := v]) (zip (view_indices (length buf) s e (length vs)) vs) buf"

subsection \<open>Jobs, queues, the shared output arrays\<close>

text \<open>
  The dictionary \<^verbatim>\<open>job\<close>. Its entries \<^verbatim>\<open>d_m_out_idx\<close> and \<^verbatim>\<open>d_m_out_dist\<close> refer, in
  every job, to the same two arrays: these are the state \<open>mem\<close>.
\<close>

record 'p job =
  j_start :: int
  j_end :: int
  d_m_ref :: "'p list"
  d_m_obs :: "'p list"

record 'd mem =
  out_idx :: "nat option list"
  out_dist :: "'d option list"
  stores :: "nat list"

text \<open>
  \<^verbatim>\<open>queue.Queue\<close>: \<^verbatim>\<open>put\<close> appends and counts the task as unfinished, \<^verbatim>\<open>get\<close> takes
  the first item (and blocks while there is none), \<^verbatim>\<open>task_done\<close> counts one task less.
\<close>

record 'p queue =
  items :: "'p job list"
  unfinished_tasks :: nat

definition empty_queue :: "'p queue" where
  "empty_queue = \<lparr>items = [], unfinished_tasks = 0\<rparr>"

definition put :: "'p queue \<Rightarrow> 'p job \<Rightarrow> 'p queue" where
  "put q job = \<lparr>items = items q @ [job], unfinished_tasks = Suc (unfinished_tasks q)\<rparr>"

definition task_done :: "'p queue \<Rightarrow> 'p queue" where
  "task_done q = q\<lparr>unfinished_tasks := unfinished_tasks q - 1\<rparr>"

subsection \<open>The thread function\<close>

text \<open>
  The body of the loop of \<^verbatim>\<open>_get_nearest_multi\<close> between \<^verbatim>\<open>q.get()\<close> and
  \<^verbatim>\<open>cuda.synchronize()\<close>: the references and the slice of the observations go to the
  device, the two scratch arrays have 32 columns, and the second kernel stores through
  the views \<^verbatim>\<open>out[start:end]\<close> of the two output arrays.
\<close>

definition run_job ::
  "(nat \<Rightarrow> nat \<Rightarrow> nat list) \<Rightarrow> ('p \<Rightarrow> 'p \<Rightarrow> 'd::linorder) \<Rightarrow> 'p job \<Rightarrow> 'd mem \<Rightarrow> 'd mem" where
  "run_job asg dfn job m =
     (let d_ref = d_m_ref job;
          d_obs = py_slice (d_m_obs job) (j_start job) (j_end job);
          d_block = block_min_reduce asg dfn d_ref d_obs 32;
          res = global_min_reduce d_block
      in \<lparr>out_idx = write_view (out_idx m) (j_start job) (j_end job) (map (map_option fst) res),
          out_dist = write_view (out_dist m) (j_start job) (j_end job) (map (map_option snd) res),
          stores = stores m
            @ view_indices (length (out_idx m)) (j_start job) (j_end job) (length res)\<rparr>)"

datatype outcome = Finished | Raised error

text \<open>
  The loop \<^verbatim>\<open>while(q.unfinished_tasks > 0)\<close>. \<open>seen\<close> collects the jobs of the
  iterations that completed. When the queue has no item while tasks are unfinished,
  \<^verbatim>\<open>q.get()\<close> blocks, and nobody puts: the call does not return. A failing launch or
  synchronisation raises in the thread, after \<^verbatim>\<open>q.get()\<close> and before
  \<^verbatim>\<open>q.task_done()\<close>.
\<close>

partial_function (option) worker_loop ::
  "env \<Rightarrow> (nat \<Rightarrow> nat \<Rightarrow> nat list) \<Rightarrow> ('p \<Rightarrow> 'p \<Rightarrow> 'd::linorder) \<Rightarrow> nat \<Rightarrow> 'p queue \<Rightarrow> 'p job list
     \<Rightarrow> 'd mem \<Rightarrow> (outcome \<times> 'p queue \<times> 'p job list \<times> 'd mem) option" where
  "worker_loop E asg dfn cid q seen m =
     (if unfinished_tasks q > 0 then
        (case items q of
           [] \<Rightarrow> worker_loop E asg dfn cid q seen m
         | job # rest \<Rightarrow>
             if kernel_ok E cid (j_start job) (j_end job) then
               worker_loop E asg dfn cid (task_done (q\<lparr>items := rest\<rparr>)) (seen @ [job])
                 (run_job asg dfn job m)
             else Some (Raised KernelExecutionError, q\<lparr>items := rest\<rparr>, seen, m))
      else Some (Finished, q, seen, m))"

declare worker_loop.simps [code]

text \<open>\<^verbatim>\<open>_get_nearest_multi(q, cid)\<close>: bind the device, then loop.\<close>

definition get_nearest_multi ::
  "env \<Rightarrow> (nat \<Rightarrow> nat \<Rightarrow> nat list) \<Rightarrow> ('p \<Rightarrow> 'p \<Rightarrow> 'd::linorder) \<Rightarrow> 'p queue \<Rightarrow> nat \<Rightarrow> 'd mem
     \<Rightarrow> (outcome \<times> 'p queue \<times> 'p job list \<times> 'd mem) option" where
  "get_nearest_multi E asg dfn q cid m =
     (if device_ok E cid then worker_loop E asg dfn cid q [] m
      else Some (Raised DeviceBindingError, q, [], m))"

subsection \<open>The dispatcher\<close>

text \<open>\<^verbatim>\<open>n_gpus = len(cuda.list_devices())\<close> when it is \<^verbatim>\<open>"auto"\<close>.\<close>

definition resolve_n_gpus :: "env \<Rightarrow> int policy \<Rightarrow> int" where
  "resolve_n_gpus E n_gpus = (case n_gpus of Auto \<Rightarrow> int (n_devices E) | Explicit g \<Rightarrow> g)"

text \<open>\<^verbatim>\<open>batch_size = int(size / n_gpus)\<close> when it is \<^verbatim>\<open>"auto"\<close>, else \<^verbatim>\<open>int(batch_size)\<close>.\<close>

definition resolve_batch_size :: "int \<Rightarrow> int \<Rightarrow> int policy \<Rightarrow> error + int" where
  "resolve_batch_size sz G batch_size =
     (case batch_size of
        Auto \<Rightarrow> if G = 0 then Inl ZeroDivisionError else Inr (tdiv sz G)
      | Explicit b \<Rightarrow> Inr b)"

text \<open>\<^verbatim>\<open>n_jobs = int(size / min(batch_size, size))\<close>.\<close>

definition n_jobs_of :: "int \<Rightarrow> int \<Rightarrow> error + int" where
  "n_jobs_of sz batch_size =
     (if min batch_size sz = 0 then Inl ZeroDivisionError
      else Inr (tdiv sz (min batch_size sz)))"

text \<open>The job that iteration \<open>j\<close> of \<^verbatim>\<open>for j in range(n_jobs)\<close> builds.\<close>

definition mk_job :: "'p list \<Rightarrow> 'p list \<Rightarrow> int \<Rightarrow> int \<Rightarrow> nat \<Rightarrow> 'p job" where
  "mk_job obs_points ref_points batch_size n_jobs j =
     \<lparr>j_start = int j * batch_size,
      j_end = (if int j = n_jobs - 1 then int (length obs_points) else (int j + 1) * batch_size),
      d_m_ref = ref_points,
      d_m_obs = obs_points\<rparr>"

text \<open>
  The loop over the jobs, with its state \<^verbatim>\<open>qid\<close> and \<^verbatim>\<open>queues\<close>;
  \<^verbatim>\<open>queues[qid]\<close> raises when there is no such queue.
\<close>

fun enqueue_jobs ::
  "(nat \<Rightarrow> 'p job) \<Rightarrow> nat list \<Rightarrow> nat \<times> 'p queue list \<Rightarrow> error + (nat \<times> 'p queue list)" where
  "enqueue_jobs mk [] st = Inr st"
| "enqueue_jobs mk (j # js) (qid, queues) =
     (let qid = (if qid \<ge> length queues then 0 else qid) in
      if qid < length queues
      then enqueue_jobs mk js (qid + 1, queues[qid := put (queues ! qid) (mk j)])
      else Inl IndexError)"

text \<open>
  From \<^verbatim>\<open>size = obs_points.shape[0]\<close> to the end of the loop over the jobs: the queues
  as they are when the first worker is started.
\<close>

definition make_queues ::
  "env \<Rightarrow> 'p list \<Rightarrow> 'p list \<Rightarrow> int policy \<Rightarrow> int policy \<Rightarrow> error + 'p queue list" where
  "make_queues E obs_points ref_points batch_size n_gpus =
     (let G = resolve_n_gpus E n_gpus;
          sz = int (length obs_points)
      in case resolve_batch_size sz G batch_size of
           Inl err \<Rightarrow> Inl err
         | Inr S \<Rightarrow>
            (case n_jobs_of sz S of
               Inl err \<Rightarrow> Inl err
             | Inr n_jobs \<Rightarrow>
                (case enqueue_jobs (mk_job obs_points ref_points S n_jobs) [0..<nat n_jobs]
                        (0, replicate (nat G) empty_queue) of
                   Inl err \<Rightarrow> Inl err
                 | Inr (qid, queues) \<Rightarrow> Inr queues)))"

text \<open>
  The threads, one per queue, \<open>cid\<close> being the position of the queue. Every thread is
  started before the first is joined; the model runs them one after the other, which is
  one of the schedules (the arrays at the end do not depend on the order of the jobs:
  lemma \<open>fold_run_job_order\<close>).
  An exception in a thread ends that thread only: \<^verbatim>\<open>w.join()\<close> returns all the same.
\<close>

fun run_workers ::
  "env \<Rightarrow> (nat \<Rightarrow> nat \<Rightarrow> nat list) \<Rightarrow> ('p \<Rightarrow> 'p \<Rightarrow> 'd::linorder) \<Rightarrow> nat \<Rightarrow> 'p queue list \<Rightarrow> 'd mem
     \<Rightarrow> ((outcome \<times> 'p queue \<times> 'p job list) list \<times> 'd mem) option" where
  "run_workers E asg dfn cid [] m = Some ([], m)"
| "run_workers E asg dfn cid (q # qs) m =
     (case get_nearest_multi E asg dfn q cid m of
        None \<Rightarrow> None
      | Some (oc, q', seen, m') \<Rightarrow>
         (case run_workers E asg dfn (Suc cid) qs m' of
            None \<Rightarrow> None
          | Some (rs, m'') \<Rightarrow> Some ((oc, q', seen) # rs, m'')))"

text \<open>The two output arrays as \<^verbatim>\<open>cuda.device_array\<close> allocates them.\<close>

definition fresh_mem :: "nat \<Rightarrow> 'd mem" where
  "fresh_mem n = \<lparr>out_idx = replicate n None, out_dist = replicate n None, stores = []\<rparr>"

text \<open>
  \<^verbatim>\<open>get_nearest\<close>, with the final state of the workers and of the arrays.
  Its first statement, \<^verbatim>\<open>cuda.device_array\<close>, allocates on the current device and
  raises \<^verbatim>\<open>CudaSupportError\<close> on a host that has no device, whatever the arguments.
  The single-device path launches the two kernels on the whole arrays, on the current
  device (device 0); an exception there reaches the caller.
\<close>

definition get_nearest_run ::
  "env \<Rightarrow> (nat \<Rightarrow> nat \<Rightarrow> nat list) \<Rightarrow> ('p \<Rightarrow> 'p \<Rightarrow> 'd::linorder) \<Rightarrow> 'p list \<Rightarrow> 'p list
     \<Rightarrow> int policy \<Rightarrow> bool \<Rightarrow> int policy
     \<Rightarrow> (error + ((outcome \<times> 'p queue \<times> 'p job list) list \<times> 'd mem)) option" where
  "get_nearest_run E asg dfn obs_points ref_points batch_size multigpu n_gpus =
     (if n_devices E = 0 then Some (Inl CudaSupportError) else
      let m0 = fresh_mem (length obs_points) in
      if \<not> multigpu then
        (if kernel_ok E 0 0 (int (length obs_points)) then
           (let d_block = block_min_reduce asg dfn ref_points obs_points 32;
                res = global_min_reduce d_block
            in Some (Inr ([], \<lparr>out_idx = fold (\<lambda>(i, v) b. b[i := v])
                                   (zip [0..<length (out_idx m0)] (map (map_option fst) res)) (out_idx m0),
                               out_dist = fold (\<lambda>(i, v) b. b[i := v])
                                   (zip [0..<length (out_dist m0)] (map (map_option snd) res)) (out_dist m0),
                               stores = take (length res) [0..<length (out_idx m0)]\<rparr>)))
         else Some (Inl KernelExecutionError))
      else
        (case make_queues E obs_points ref_points batch_size n_gpus of
           Inl err \<Rightarrow> Some (Inl err)
         | Inr queues \<Rightarrow>
            (case run_workers E asg dfn 0 queues m0 of
               None \<Rightarrow> None
             | Some (rs, m) \<Rightarrow> Some (Inr (rs, m)))))"

text \<open>\<^verbatim>\<open>get_nearest\<close> as the caller sees it: \<^verbatim>\<open>return out_idx, out_dist\<close>.\<close>

definition get_nearest ::
  "env \<Rightarrow> (nat \<Rightarrow> nat \<Rightarrow> nat list) \<Rightarrow> ('p \<Rightarrow> 'p \<Rightarrow> 'd::linorder) \<Rightarrow> 'p list \<Rightarrow> 'p list
     \<Rightarrow> int policy \<Rightarrow> bool \<Rightarrow> int policy
     \<Rightarrow> (error + (nat option list \<times> 'd option list)) option" where
  "get_nearest E asg dfn obs_points ref_points batch_size multigpu n_gpus =
     (case get_nearest_run E asg dfn obs_points ref_points batch_size multigpu n_gpus of
        None \<Rightarrow> None
      | Some (Inl err) \<Rightarrow> Some (Inl err)
      | Some (Inr (rs, m)) \<Rightarrow> Some (Inr (out_idx m, out_dist m)))"


subsection \<open>Notions used in the statements\<close>

text \<open>What the two kernels, one after the other, give for one observation.\<close>

definition nearest_of ::
  "(nat \<Rightarrow> nat \<Rightarrow> nat list) \<Rightarrow> ('p \<Rightarrow> 'p \<Rightarrow> 'd::linorder) \<Rightarrow> 'p list \<Rightarrow> 'p \<Rightarrow> (nat \<times> 'd) option" where
  "nearest_of asg dfn refs ob = unit_scan dfn refs ob (concat (map (asg (length refs)) [0..<32]))"

text \<open>A job of this call whose range lies within the arrays.\<close>

definition job_in :: "'p list \<Rightarrow> 'p list \<Rightarrow> 'p job \<Rightarrow> bool" where
  "job_in obs refs job \<longleftrightarrow>
     d_m_obs job = obs \<and> d_m_ref job = refs \<and> 0 \<le> j_start job \<and> j_start job \<le> j_end job
     \<and> j_end job \<le> int (length obs)"

text \<open>The observation index \<open>i\<close> lies in the half-open range of the job.\<close>

definition covers :: "'p job \<Rightarrow> nat \<Rightarrow> bool" where
  "covers job i \<longleftrightarrow> j_start job \<le> int i \<and> int i < j_end job"

definition job_range :: "'p job \<Rightarrow> nat list" where
  "job_range job = [nat (j_start job)..<nat (j_end job)]"

text \<open>The kernels of the job succeed on device \<open>cid\<close>.\<close>

definition ok_job :: "env \<Rightarrow> nat \<Rightarrow> 'p job \<Rightarrow> bool" where
  "ok_job E cid job = kernel_ok E cid (j_start job) (j_end job)"

text \<open>No device operation fails.\<close>

definition no_faults :: "env \<Rightarrow> bool" where
  "no_faults E \<longleftrightarrow> (\<forall>c. device_ok E c) \<and> (\<forall>c s e. kernel_ok E c s e)"

text \<open>The jobs whose iteration the worker of device \<open>cid\<close> completes, given its queue.\<close>

definition completed :: "env \<Rightarrow> nat \<Rightarrow> 'p job list \<Rightarrow> 'p job list" where
  "completed E cid js = (if device_ok E cid then takeWhile (ok_job E cid) js else [])"

fun completed_all :: "env \<Rightarrow> nat \<Rightarrow> 'p queue list \<Rightarrow> 'p job list" where
  "completed_all E cid [] = []"
| "completed_all E cid (q # qs) = completed E cid (items q) @ completed_all E (Suc cid) qs"


text \<open>The count of unfinished tasks is the number of items: every put is still there.\<close>

definition counted :: "'p queue \<Rightarrow> bool" where
  "counted q \<longleftrightarrow> unfinished_tasks q = length (items q)"

text \<open>\<open>G\<close> queues on which the jobs \<open>mk 0, \<dots>, mk (n - 1)\<close> were put in turn.\<close>

definition rr_queues :: "nat \<Rightarrow> (nat \<Rightarrow> 'p job) \<Rightarrow> nat \<Rightarrow> 'p queue list" where
  "rr_queues G mk n =
     map (\<lambda>q. \<lparr>items = map mk (filter (\<lambda>j. j mod G = q) [0..<n]),
               unfinished_tasks = length (filter (\<lambda>j. j mod G = q) [0..<n])\<rparr>) [0..<G]"

subsection \<open>Example inputs\<close>

text \<open>An environment of \<open>n\<close> devices on which nothing fails; a few points.\<close>

definition env_ok :: "nat \<Rightarrow> env" where
  "env_ok n = \<lparr>n_devices = n, device_ok = (\<lambda>c. True), kernel_ok = (\<lambda>c s e. True)\<rparr>"

definition obs5 :: "point list" where
  "obs5 = [(0, 0), (0, 1), (1, 0), (1, 1), (0, 2)]"

definition refs3 :: "point list" where
  "refs3 = [(0, 0), (1, 1), (0, 2)]"

definition queues5 :: "point queue list" where
  "queues5 =
     [\<lparr>items = [\<lparr>j_start = 0, j_end = 2, d_m_ref = refs3, d_m_obs = obs5\<rparr>], unfinished_tasks = 1\<rparr>,
      \<lparr>items = [\<lparr>j_start = 2, j_end = 5, d_m_ref = refs3, d_m_obs = obs5\<rparr>], unfinished_tasks = 1\<rparr>]"

text \<open>The result of a call on which every observation got its value.\<close>
definition all_nearest ::
  "(nat \<Rightarrow> nat \<Rightarrow> nat list) \<Rightarrow> ('p \<Rightarrow> 'p \<Rightarrow> 'd::linorder) \<Rightarrow> 'p list \<Rightarrow> 'p list
     \<Rightarrow> nat option list \<times> 'd option list" where
  "all_nearest asg dfn obs refs =
     (map (\<lambda>ob. map_option fst (nearest_of asg dfn refs ob)) obs,
      map (\<lambda>ob. map_option snd (nearest_of asg dfn refs ob)) obs)"

text \<open>
  The postcondition of \<^verbatim>\<open>get_nearest\<close>: both arrays have one slot per observation, and
  slot \<open>i\<close> holds the index of a reference that is nearest to observation \<open>i\<close>, and
  the distance to it.
\<close>

definition nearest_result ::
  "('p \<Rightarrow> 'p \<Rightarrow> 'd::linorder) \<Rightarrow> 'p list \<Rightarrow> 'p list \<Rightarrow> nat option list \<times> 'd option list \<Rightarrow> bool" where
  "nearest_result dfn obs refs r \<longleftrightarrow>
     length (fst r) = length obs \<and> length (snd r) = length obs
     \<and> (\<forall>i<length obs. \<exists>k<length refs.
           fst r ! i = Some k \<and> snd r ! i = Some (dfn (obs ! i) (refs ! k))
           \<and> (\<forall>k'<length refs. dfn (obs ! i) (refs ! k) \<le> dfn (obs ! i) (refs ! k')))"

definition obs1 :: "point list" where
  "obs1 = [(0, 0)]"

definition obs2 :: "point list" where
  "obs2 = [(0, 0), (0, 1)]"

definition obs3 :: "point list" where
  "obs3 = [(0, 0), (0, 1), (1, 1)]"








section \<open>Lemmas\<close>

subsection \<open>The reduction kernels\<close>

lemma keep_min_assoc: "keep_min (keep_min a b) c = keep_min a (keep_min b c)"
  by (auto simp: keep_min_def split: option.splits)

lemma keep_min_None [simp]: "keep_min None c = c" "keep_min b None = b"
  by (auto simp: keep_min_def split: option.splits)

lemma unit_scan_fold: "unit_scan dfn refs ob ks = fold (scan_step dfn refs ob) ks None"
  by (simp add: unit_scan_def)

lemma scan_step_keep: "scan_step dfn refs ob k acc = keep_min acc (scan_step dfn refs ob k None)"
  by (simp add: scan_step_def)

lemma fold_scan_acc:
  "fold (scan_step dfn refs ob) ks acc = keep_min acc (fold (scan_step dfn refs ob) ks None)"
proof (induction ks arbitrary: acc)
  case Nil
  show ?case by simp
next
  case (Cons k ks)
  have "fold (scan_step dfn refs ob) (k # ks) acc
        = keep_min (scan_step dfn refs ob k acc) (fold (scan_step dfn refs ob) ks None)"
    using Cons.IH [of "scan_step dfn refs ob k acc"] by simp
  also have "\<dots> = keep_min (keep_min acc (scan_step dfn refs ob k None))
                      (fold (scan_step dfn refs ob) ks None)"
    using scan_step_keep [of dfn refs ob k acc] by simp
  also have "\<dots> = keep_min acc (keep_min (scan_step dfn refs ob k None)
                      (fold (scan_step dfn refs ob) ks None))"
    by (rule keep_min_assoc)
  also have "\<dots> = keep_min acc (fold (scan_step dfn refs ob) (k # ks) None)"
    using Cons.IH [of "scan_step dfn refs ob k None"] by simp
  finally show ?case .
qed

lemma two_phase_flat:
  "fold (\<lambda>c best. keep_min best c) (map (\<lambda>ks. unit_scan dfn refs ob ks) units) acc
   = fold (scan_step dfn refs ob) (concat units) acc"
proof (induction units arbitrary: acc)
  case Nil
  show ?case by simp
next
  case (Cons u us)
  show ?case
    using Cons.IH [of "keep_min acc (unit_scan dfn refs ob u)"]
          fold_scan_acc [of dfn refs ob u acc]
    by (simp add: unit_scan_fold)
qed

lemma kernels_nearest:
  "global_min_reduce (block_min_reduce asg dfn refs d_obs 32) = map (nearest_of asg dfn refs) d_obs"
  unfolding global_min_reduce_def block_min_reduce_def nearest_of_def
  using two_phase_flat [of dfn refs _ "map (asg (length refs)) [0..<32]" None]
  by (simp add: comp_def unit_scan_fold)

lemma unit_scan_snoc:
  "unit_scan dfn refs ob (ks @ [k]) = scan_step dfn refs ob k (unit_scan dfn refs ob ks)"
  by (simp add: unit_scan_fold)

lemma unit_scan_None: "unit_scan dfn refs ob ks = None \<longleftrightarrow> (\<forall>k\<in>set ks. \<not> k < length refs)"
proof (induction ks rule: rev_induct)
  case Nil
  show ?case by (simp add: unit_scan_fold)
next
  case (snoc k ks)
  then show ?case
    by (auto simp: unit_scan_snoc scan_step_def keep_min_def split: option.splits)
qed

lemma unit_scan_Some:
  "unit_scan dfn refs ob ks = Some (i, d) \<Longrightarrow>
     i < length refs \<and> d = dfn ob (refs ! i)
     \<and> (\<forall>k\<in>set ks. k < length refs \<longrightarrow> d \<le> dfn ob (refs ! k))
     \<and> (\<exists>pre post. ks = pre @ i # post
           \<and> (\<forall>k\<in>set pre. k < length refs \<longrightarrow> d < dfn ob (refs ! k)))"
proof (induction ks arbitrary: i d rule: rev_induct)
  case Nil
  then show ?case by (simp add: unit_scan_fold)
next
  case (snoc k ks)
  show ?case
  proof (cases "unit_scan dfn refs ob ks")
    case None
    then have none: "\<forall>k'\<in>set ks. \<not> k' < length refs" by (simp add: unit_scan_None)
    from snoc.prems None have k: "k < length refs" "i = k" "d = dfn ob (refs ! k)"
      by (auto simp: unit_scan_snoc scan_step_def split: if_splits)
    have "ks @ [k] = ks @ i # []" using k by simp
    with none k show ?thesis by fastforce
  next
    case (Some c)
    obtain j e where c: "c = (j, e)" by (cases c)
    note IH = snoc.IH [OF Some [unfolded c]]
    from IH obtain pre post where pp: "ks = pre @ j # post"
      "\<forall>k\<in>set pre. k < length refs \<longrightarrow> e < dfn ob (refs ! k)" by blast
    show ?thesis
    proof (cases "k < length refs \<and> dfn ob (refs ! k) < e")
      case True
      with snoc.prems Some c have ik: "i = k" "d = dfn ob (refs ! k)"
        by (auto simp: unit_scan_snoc scan_step_def keep_min_def)
      have "ks @ [k] = ks @ i # []" using ik by simp
      moreover have "\<forall>k'\<in>set ks. k' < length refs \<longrightarrow> d < dfn ob (refs ! k')"
        using IH True ik by fastforce
      ultimately show ?thesis using True ik by fastforce
    next
      case False
      with snoc.prems Some c have ik: "i = j" "d = e"
        by (auto simp: unit_scan_snoc scan_step_def keep_min_def split: if_splits)
      have "ks @ [k] = pre @ i # (post @ [k])" using pp ik by simp
      then have "\<exists>pre post. ks @ [k] = pre @ i # post
           \<and> (\<forall>k\<in>set pre. k < length refs \<longrightarrow> d < dfn ob (refs ! k))"
        using pp(2) ik by blast
      moreover have "\<forall>k'\<in>set (ks @ [k]). k' < length refs \<longrightarrow> d \<le> dfn ob (refs ! k')"
        using IH False ik by auto
      ultimately show ?thesis using IH ik by blast
    qed
  qed
qed

subsection \<open>Views and jobs\<close>

lemma clip_in: "0 \<le> i \<Longrightarrow> i \<le> int n \<Longrightarrow> clip n i = nat i"
  by (simp add: clip_def)

lemma view_indices_in:
  "0 \<le> s \<Longrightarrow> s \<le> e \<Longrightarrow> e \<le> int n \<Longrightarrow> view_indices n s e (nat e - nat s) = [nat s..<nat e]"
  by (simp add: view_indices_def clip_in)

lemma py_slice_in:
  "0 \<le> s \<Longrightarrow> s \<le> e \<Longrightarrow> e \<le> int (length xs) \<Longrightarrow>
     py_slice xs s e = take (nat e - nat s) (drop (nat s) xs)"
  by (simp add: py_slice_def clip_in)

lemma length_py_slice_in:
  "0 \<le> s \<Longrightarrow> s \<le> e \<Longrightarrow> e \<le> int (length xs) \<Longrightarrow> length (py_slice xs s e) = nat e - nat s"
  by (simp add: py_slice_in)

lemma fold_update_length [simp]:
  "length (fold (\<lambda>(i, v) b. b[i := v]) ps buf) = length buf"
  by (induction ps arbitrary: buf) (auto split: prod.splits)


lemma fold_update_upt:
  "length vs = b - a \<Longrightarrow> b \<le> length buf \<Longrightarrow>
     fold (\<lambda>(i, v) b. b[i := v]) (zip [a..<b] vs) buf ! i
     = (if a \<le> i \<and> i < b then vs ! (i - a) else buf ! i)"
proof (induction vs arbitrary: a buf)
  case Nil
  then show ?case by auto
next
  case (Cons v vs)
  then have ab: "a < b" by simp
  then have upt: "[a..<b] = a # [Suc a..<b]" by (simp add: upt_conv_Cons)
  have len: "length vs = b - Suc a" using Cons.prems by simp
  have "fold (\<lambda>(i, v) b. b[i := v]) (zip [a..<b] (v # vs)) buf ! i
        = fold (\<lambda>(i, v) b. b[i := v]) (zip [Suc a..<b] vs) (buf[a := v]) ! i"
    by (simp add: upt)
  also have "\<dots> = (if Suc a \<le> i \<and> i < b then vs ! (i - Suc a) else buf[a := v] ! i)"
    using Cons.IH [OF len, of "buf[a := v]"] Cons.prems(2) by simp
  also have "\<dots> = (if a \<le> i \<and> i < b then (v # vs) ! (i - a) else buf ! i)"
    using ab Cons.prems(2) by (cases "i = a") (auto simp: nth_Cons' Suc_diff_Suc)
  finally show ?case .
qed

lemma write_view_nth:
  assumes "0 \<le> s" "s \<le> e" "e \<le> int (length buf)" "length vs = nat e - nat s"
  shows "write_view buf s e vs ! i = (if nat s \<le> i \<and> i < nat e then vs ! (i - nat s) else buf ! i)"
proof -
  have "view_indices (length buf) s e (length vs) = [nat s..<nat e]"
    using assms view_indices_in [of s e "length buf"] by simp
  moreover have "nat e \<le> length buf" using assms by linarith
  ultimately show ?thesis
    unfolding write_view_def using fold_update_upt [of vs "nat e" "nat s" buf i] assms(4) by simp
qed

lemma length_write_view [simp]: "length (write_view buf s e vs) = length buf"
  by (simp add: write_view_def)


lemma run_job_lengths [simp]:
  "length (out_idx (run_job asg dfn job m)) = length (out_idx m)"
  "length (out_dist (run_job asg dfn job m)) = length (out_dist m)"
  by (simp_all add: run_job_def Let_def)


lemma run_job_nth:
  assumes "job_in obs refs job" "length (out_idx m) = length obs" "length (out_dist m) = length obs"
  shows "out_idx (run_job asg dfn job m) ! i
           = (if covers job i then map_option fst (nearest_of asg dfn refs (obs ! i)) else out_idx m ! i)"
    and "out_dist (run_job asg dfn job m) ! i
           = (if covers job i then map_option snd (nearest_of asg dfn refs (obs ! i)) else out_dist m ! i)"
    and "stores (run_job asg dfn job m) = stores m @ job_range job"
proof -
  let ?s = "j_start job" and ?e = "j_end job"
  from assms(1) have b: "0 \<le> ?s" "?s \<le> ?e" "?e \<le> int (length obs)"
    and o: "d_m_obs job = obs" and r: "d_m_ref job = refs"
    by (simp_all add: job_in_def)
  let ?res = "map (nearest_of asg dfn refs) (py_slice obs ?s ?e)"
  have len: "length ?res = nat ?e - nat ?s" using b by (simp add: length_py_slice_in)
  have nth: "map g ?res ! (i - nat ?s) = g (nearest_of asg dfn refs (obs ! i))" if "covers job i" for g :: "(nat \<times> 'b) option \<Rightarrow> 'c"
  proof -
    from that b have i: "nat ?s \<le> i" "i < nat ?e" "nat ?e \<le> length obs"
      by (auto simp: covers_def)
    then have lt: "i - nat ?s < nat ?e - nat ?s" by linarith
    have "take (nat ?e - nat ?s) (drop (nat ?s) obs) ! (i - nat ?s) = obs ! i"
      using lt i by simp
    moreover have "i - nat ?s < length (take (nat ?e - nat ?s) (drop (nat ?s) obs))"
      using lt i by simp linarith
    ultimately show ?thesis using b by (simp add: py_slice_in)
  qed
  have cov: "covers job i \<longleftrightarrow> nat ?s \<le> i \<and> i < nat ?e"
    using b by (auto simp: covers_def)
  show "out_idx (run_job asg dfn job m) ! i
           = (if covers job i then map_option fst (nearest_of asg dfn refs (obs ! i)) else out_idx m ! i)"
    using write_view_nth [of ?s ?e "out_idx m" "map (map_option fst) ?res" i] b len assms(2) nth [of "map_option fst"] cov
    by (simp add: run_job_def Let_def kernels_nearest o r)
  show "out_dist (run_job asg dfn job m) ! i
           = (if covers job i then map_option snd (nearest_of asg dfn refs (obs ! i)) else out_dist m ! i)"
    using write_view_nth [of ?s ?e "out_dist m" "map (map_option snd) ?res" i] b len assms(3) nth [of "map_option snd"] cov
    by (simp add: run_job_def Let_def kernels_nearest o r)
  show "stores (run_job asg dfn job m) = stores m @ job_range job"
    using view_indices_in [of ?s ?e "length (out_idx m)"] b len assms(2)
    by (simp add: run_job_def Let_def kernels_nearest o r job_range_def)
qed

lemma fold_run_job_lengths [simp]:
  "length (out_idx (fold (run_job asg dfn) js m)) = length (out_idx m)"
  "length (out_dist (fold (run_job asg dfn) js m)) = length (out_dist m)"
  by (induction js arbitrary: m) simp_all

lemma fold_run_job_nth:
  assumes "\<forall>job\<in>set js. job_in obs refs job"
    "length (out_idx m) = length obs" "length (out_dist m) = length obs"
  shows "out_idx (fold (run_job asg dfn) js m) ! i
           = (if \<exists>job\<in>set js. covers job i then map_option fst (nearest_of asg dfn refs (obs ! i))
              else out_idx m ! i)
       \<and> out_dist (fold (run_job asg dfn) js m) ! i
           = (if \<exists>job\<in>set js. covers job i then map_option snd (nearest_of asg dfn refs (obs ! i))
              else out_dist m ! i)
       \<and> stores (fold (run_job asg dfn) js m) = stores m @ concat (map job_range js)"
  using assms
proof (induction js arbitrary: m)
  case Nil
  show ?case by simp
next
  case (Cons j js)
  have jin: "job_in obs refs j" using Cons.prems(1) by simp
  note rj = run_job_nth [OF jin Cons.prems(2) Cons.prems(3), of asg dfn]
  have IH: "out_idx (fold (run_job asg dfn) js (run_job asg dfn j m)) ! i
           = (if \<exists>job\<in>set js. covers job i then map_option fst (nearest_of asg dfn refs (obs ! i))
              else out_idx (run_job asg dfn j m) ! i)
       \<and> out_dist (fold (run_job asg dfn) js (run_job asg dfn j m)) ! i
           = (if \<exists>job\<in>set js. covers job i then map_option snd (nearest_of asg dfn refs (obs ! i))
              else out_dist (run_job asg dfn j m) ! i)
       \<and> stores (fold (run_job asg dfn) js (run_job asg dfn j m))
           = stores (run_job asg dfn j m) @ concat (map job_range js)"
    using Cons.IH [of "run_job asg dfn j m"] Cons.prems by simp
  show ?case using IH rj by simp
qed

subsection \<open>The worker loop\<close>

lemma worker_loop_blocked:
  assumes "worker_loop E asg dfn cid q seen m = Some r"
  shows "\<not> (items q = [] \<and> unfinished_tasks q > 0)"
  using assms
proof (induction arbitrary: r rule: worker_loop.raw_induct[rotated 1, consumes 1])
  case (1 wl E asg dfn cid q seen m r)
  show ?case
  proof
    assume b: "items q = [] \<and> 0 < unfinished_tasks q"
    with 1(2) have "wl E asg dfn cid q seen m = Some r" by simp
    from 1(1) [OF this] b show False by simp
  qed
qed

lemma worker_loop_run:
  "unfinished_tasks q = length (items q) \<Longrightarrow>
   worker_loop E asg dfn cid q seen m
     = Some (if list_all (ok_job E cid) (items q) then Finished else Raised KernelExecutionError,
             \<lparr>items = tl (dropWhile (ok_job E cid) (items q)),
              unfinished_tasks = length (dropWhile (ok_job E cid) (items q))\<rparr>,
             seen @ takeWhile (ok_job E cid) (items q),
             fold (run_job asg dfn) (takeWhile (ok_job E cid) (items q)) m)"
proof (induction "items q" arbitrary: q seen m)
  case Nil
  then show ?case by (subst worker_loop.simps) simp
next
  case (Cons job rest)
  let ?q' = "task_done (q\<lparr>items := rest\<rparr>)"
  have q': "rest = items ?q'" "unfinished_tasks ?q' = length (items ?q')"
    using Cons.prems Cons.hyps(2) [symmetric] by (simp_all add: task_done_def)
  show ?case
  proof (cases "ok_job E cid job")
    case True
    have "worker_loop E asg dfn cid q seen m
          = worker_loop E asg dfn cid ?q' (seen @ [job]) (run_job asg dfn job m)"
      using True Cons.prems Cons.hyps(2) [symmetric]
      by (subst worker_loop.simps) (simp add: ok_job_def)
    also note Cons.hyps(1) [OF q', of "seen @ [job]" "run_job asg dfn job m"]
    finally show ?thesis
      using True Cons.hyps(2) [symmetric] q'(1) [symmetric] by simp
  next
    case False
    have "worker_loop E asg dfn cid q seen m = Some (Raised KernelExecutionError, q\<lparr>items := rest\<rparr>, seen, m)"
      using False Cons.prems Cons.hyps(2) [symmetric]
      by (subst worker_loop.simps) (simp add: ok_job_def)
    then show ?thesis
      using False Cons.hyps(2) [symmetric] Cons.prems by simp
  qed
qed

lemma get_nearest_multi_run:
  "counted q \<Longrightarrow>
   \<exists>oc q'. get_nearest_multi E asg dfn q cid m
     = Some (oc, q', completed E cid (items q), fold (run_job asg dfn) (completed E cid (items q)) m)
     \<and> unfinished_tasks q' \<le> unfinished_tasks q
     \<and> (device_ok E cid \<and> list_all (ok_job E cid) (items q)
          \<longrightarrow> oc = Finished \<and> q' = \<lparr>items = [], unfinished_tasks = 0\<rparr>)"
proof (cases "device_ok E cid")
  case True
  assume "counted q"
  then have c: "unfinished_tasks q = length (items q)" by (simp add: counted_def)
  have le: "length (dropWhile (ok_job E cid) (items q)) \<le> length (items q)"
    by (rule length_dropWhile_le)
  note run = worker_loop_run [OF c, of E asg dfn cid "[]" m]
  show ?thesis
  proof (cases "list_all (ok_job E cid) (items q)")
    case all: True
    then have dw: "dropWhile (ok_job E cid) (items q) = []" by (simp add: list_all_iff)
    show ?thesis
      using True all run dw by (simp add: get_nearest_multi_def completed_def)
  next
    case nall: False
    show ?thesis
      using True nall run le c by (simp add: get_nearest_multi_def completed_def)
  qed
next
  case False
  assume "counted q"
  with False show ?thesis by (simp add: get_nearest_multi_def completed_def)
qed

lemma run_workers_run:
  "list_all counted qs \<Longrightarrow>
   \<exists>rs. run_workers E asg dfn cid qs m
          = Some (rs, fold (run_job asg dfn) (completed_all E cid qs) m)
        \<and> length rs = length qs
        \<and> concat (map (\<lambda>r. snd (snd r)) rs) = completed_all E cid qs
        \<and> (\<forall>k<length qs. snd (snd (rs ! k)) = completed E (cid + k) (items (qs ! k))
              \<and> unfinished_tasks (fst (snd (rs ! k))) \<le> unfinished_tasks (qs ! k))"
proof (induction qs arbitrary: cid m)
  case Nil
  show ?case by simp
next
  case (Cons q qs)
  from Cons.prems have cq: "counted q" and cqs: "list_all counted qs" by simp_all
  from get_nearest_multi_run [OF cq, of E asg dfn cid m] obtain oc q' where
    w: "get_nearest_multi E asg dfn q cid m
        = Some (oc, q', completed E cid (items q), fold (run_job asg dfn) (completed E cid (items q)) m)"
    and le: "unfinished_tasks q' \<le> unfinished_tasks q" by blast
  let ?m' = "fold (run_job asg dfn) (completed E cid (items q)) m"
  from Cons.IH [OF cqs, of "Suc cid" ?m'] obtain rs where
    r: "run_workers E asg dfn (Suc cid) qs ?m'
          = Some (rs, fold (run_job asg dfn) (completed_all E (Suc cid) qs) ?m')"
    and len: "length rs = length qs"
    and cc: "concat (map (\<lambda>r. snd (snd r)) rs) = completed_all E (Suc cid) qs"
    and each: "\<forall>k<length qs. snd (snd (rs ! k)) = completed E (Suc cid + k) (items (qs ! k))
              \<and> unfinished_tasks (fst (snd (rs ! k))) \<le> unfinished_tasks (qs ! k)" by blast
  have "run_workers E asg dfn cid (q # qs) m
        = Some ((oc, q', completed E cid (items q)) # rs,
                fold (run_job asg dfn) (completed_all E cid (q # qs)) m)"
    using w r by simp
  moreover have "\<forall>k<length (q # qs).
       snd (snd (((oc, q', completed E cid (items q)) # rs) ! k))
         = completed E (cid + k) (items ((q # qs) ! k))
       \<and> unfinished_tasks (fst (snd (((oc, q', completed E cid (items q)) # rs) ! k)))
           \<le> unfinished_tasks ((q # qs) ! k)"
  proof (intro allI impI)
    fix k assume "k < length (q # qs)"
    then show "snd (snd (((oc, q', completed E cid (items q)) # rs) ! k))
         = completed E (cid + k) (items ((q # qs) ! k))
       \<and> unfinished_tasks (fst (snd (((oc, q', completed E cid (items q)) # rs) ! k)))
           \<le> unfinished_tasks ((q # qs) ! k)"
      using each le by (cases k) auto
  qed
  ultimately show ?case using len cc by auto
qed



subsection \<open>The queues\<close>

lemma tdiv_nonneg: "0 \<le> a \<Longrightarrow> 0 < b \<Longrightarrow> tdiv a b = a div b"
  by (cases "a = 0") (simp_all add: tdiv_def)

lemma enqueue_jobs_append:
  "enqueue_jobs mk (xs @ ys) st
   = (case enqueue_jobs mk xs st of Inl err \<Rightarrow> Inl err | Inr st' \<Rightarrow> enqueue_jobs mk ys st')"
proof (induction xs arbitrary: st)
  case Nil
  show ?case by simp
next
  case (Cons x xs)
  obtain qid queues where st: "st = (qid, queues)" by (cases st)
  show ?case using Cons.IH by (simp add: st Let_def)
qed

lemma rr_queues_0: "rr_queues G mk 0 = replicate G empty_queue"
  by (simp add: rr_queues_def empty_queue_def map_replicate_const)

lemma rr_queues_Suc:
  assumes "0 < G"
  shows "(rr_queues G mk n)[n mod G := put (rr_queues G mk n ! (n mod G)) (mk n)] = rr_queues G mk (Suc n)"
proof (rule nth_equalityI)
  show "length ((rr_queues G mk n)[n mod G := put (rr_queues G mk n ! (n mod G)) (mk n)])
        = length (rr_queues G mk (Suc n))"
    by (simp add: rr_queues_def)
next
  fix q assume "q < length ((rr_queues G mk n)[n mod G := put (rr_queues G mk n ! (n mod G)) (mk n)])"
  then have q: "q < G" by (simp add: rr_queues_def)
  have nG: "n mod G < G" using assms by simp
  show "(rr_queues G mk n)[n mod G := put (rr_queues G mk n ! (n mod G)) (mk n)] ! q
        = rr_queues G mk (Suc n) ! q"
  proof (cases "q = n mod G")
    case True
    then show ?thesis using q by (simp add: rr_queues_def put_def)
  next
    case False
    then have "n mod G \<noteq> q" by simp
    then show ?thesis using q False nG by (simp add: rr_queues_def)
  qed
qed

lemma enqueue_jobs_upt:
  assumes "0 < G"
  shows "enqueue_jobs mk [0..<n] (0, replicate G empty_queue)
         = Inr (if n = 0 then 0 else Suc ((n - 1) mod G), rr_queues G mk n)"
proof (induction n)
  case 0
  show ?case by (simp add: rr_queues_0)
next
  case (Suc n)
  let ?qid = "if n = 0 then 0 else Suc ((n - 1) mod G)"
  have len: "length (rr_queues G mk n) = G" by (simp add: rr_queues_def)
  have wrap: "(if ?qid \<ge> G then 0 else ?qid) = n mod G"
  proof (cases n)
    case 0
    then show ?thesis using assms by simp
  next
    case (Suc k)
    have "k mod G < G" using assms by simp
    then have "G \<le> Suc (k mod G) \<longleftrightarrow> Suc (k mod G) = G" by linarith
    then show ?thesis using Suc assms by (auto simp: mod_Suc)
  qed
  have nG: "n mod G < G" using assms by simp
  have "enqueue_jobs mk [0..<Suc n] (0, replicate G empty_queue)
        = enqueue_jobs mk [n] (?qid, rr_queues G mk n)"
    using Suc.IH by (simp add: enqueue_jobs_append del: enqueue_jobs.simps)
  also have "\<dots> = Inr (Suc (n mod G), (rr_queues G mk n)[n mod G := put (rr_queues G mk n ! (n mod G)) (mk n)])"
    using wrap nG len by (simp add: Let_def del: upt_Suc)
  also have "\<dots> = Inr (Suc (n mod G), rr_queues G mk (Suc n))"
    using rr_queues_Suc [OF assms, of mk n] by simp
  finally show ?case by simp
qed

lemma enqueue_jobs_no_queue:
  "js \<noteq> [] \<Longrightarrow> enqueue_jobs mk js (qid, []) = Inl IndexError"
  by (cases js) simp_all

lemma rr_queues_counted: "list_all counted (rr_queues G mk n)"
  by (simp add: rr_queues_def list_all_iff counted_def)

text \<open>Every job sits in exactly one queue.\<close>
lemma mset_concat_update:
  "q < length xss \<Longrightarrow> mset (concat (xss[q := xss ! q @ [a]])) = add_mset a (mset (concat xss))"
proof (induction xss arbitrary: q)
  case Nil
  then show ?case by simp
next
  case (Cons xs xss)
  then show ?case by (cases q) simp_all
qed

lemma mset_all_jobs_rr:
  assumes "0 < G"
  shows "mset (concat (map items (rr_queues G mk n))) = mset (map mk [0..<n])"
proof (induction n)
  case 0
  show ?case by (simp add: rr_queues_def)
next
  case (Suc n)
  have nG: "n mod G < length (rr_queues G mk n)" using assms by (simp add: rr_queues_def)
  have "map items (rr_queues G mk (Suc n))
        = (map items (rr_queues G mk n))[n mod G := map items (rr_queues G mk n) ! (n mod G) @ [mk n]]"
    using rr_queues_Suc [OF assms, of mk n, symmetric] nG
    by (simp add: map_update put_def)
  then show ?case
    using mset_concat_update [of "n mod G" "map items (rr_queues G mk n)" "mk n"] nG Suc.IH
    by simp
qed

subsection \<open>The job ranges\<close>

lemma concat_blocks: "concat (map (\<lambda>j. [j * s..<Suc j * s]) [0..<k]) = [0..<k * s]"
proof (induction k)
  case 0
  show ?case by simp
next
  case (Suc k)
  have "[0..<k * s + s] = [0..<k * s] @ [k * s..<k * s + s]"
    by (rule upt_add_eq_append) simp
  then show ?case using Suc.IH by (simp add: add.commute)
qed

lemma n_jobs_of_pos:
  assumes "1 \<le> S" "1 \<le> N"
  shows "n_jobs_of (int N) S = Inr (int (N div min (nat S) N))"
    and "1 \<le> N div min (nat S) N"
    and "(N div min (nat S) N - 1) * nat S \<le> N"
proof -
  let ?b = "min (nat S) N"
  have b: "1 \<le> ?b" "?b \<le> N" using assms by simp_all
  obtain s where s: "S = int s" using assms(1) zero_le_imp_eq_int [of S] by auto
  have m: "min S (int N) = int ?b" unfolding s by simp
  have "tdiv (int N) (int ?b) = int N div int ?b"
    using b assms by (intro tdiv_nonneg) simp_all
  also have "\<dots> = int (N div ?b)" by (simp add: zdiv_int)
  finally show "n_jobs_of (int N) S = Inr (int (N div ?b))"
    using b assms unfolding n_jobs_of_def m by simp
  show J: "1 \<le> N div ?b" using b by (simp add: Suc_le_eq div_greater_zero_iff)
  show "(N div ?b - 1) * nat S \<le> N"
  proof (cases "nat S \<le> N")
    case True
    then have bS: "?b = nat S" by simp
    have "(N div nat S - 1) * nat S \<le> N div nat S * nat S"
      by (rule mult_le_mono1) simp
    also have "\<dots> \<le> N" by simp
    finally show ?thesis unfolding bS .
  next
    case False
    then have "?b = N" by simp
    then show ?thesis using assms by simp
  qed
qed

lemma mk_job_range:
  assumes "1 \<le> S" "j < J" "(J - 1) * nat S \<le> length obs"
  shows "job_range (mk_job obs refs S (int J) j)
         = (if j = J - 1 then [j * nat S..<length obs] else [j * nat S..<Suc j * nat S])"
    and "job_in obs refs (mk_job obs refs S (int J) j)"
proof -
  define s where "s = nat S"
  have s: "S = int s" "1 \<le> s" using assms(1) by (simp_all add: s_def)
  have last: "int j = int J - 1 \<longleftrightarrow> j = J - 1" using assms(2) by auto
  have st: "nat (int j * S) = j * nat S" by (simp add: s nat_mult_distrib)
  have en: "nat ((int j + 1) * S) = Suc j * nat S" by (simp add: s nat_mult_distrib nat_add_distrib)
  show "job_range (mk_job obs refs S (int J) j)
         = (if j = J - 1 then [j * nat S..<length obs] else [j * nat S..<Suc j * nat S])"
    using last st en by (simp add: job_range_def mk_job_def)
  have le: "Suc j * nat S \<le> length obs" if "j \<noteq> J - 1"
  proof -
    from that assms(2) have "Suc j \<le> J - 1" by simp
    then have "Suc j * nat S \<le> (J - 1) * nat S" by (rule mult_le_mono1)
    with assms(3) show ?thesis by simp
  qed
  have le2: "j * nat S \<le> length obs" if "j = J - 1"
    using that assms(3) by simp
  have "int j * S \<le> int (length obs)" if "j = J - 1"
    using le2 [OF that] s by (metis nat_int of_nat_le_iff of_nat_mult)
  moreover have "(int j + 1) * S \<le> int (length obs)" if "j \<noteq> J - 1"
    using le [OF that] s by (metis nat_int of_nat_le_iff of_nat_mult of_nat_Suc add.commute)
  moreover have "0 \<le> int j * S" "int j * S \<le> (int j + 1) * S"
    using s by (simp_all add: distrib_right)
  ultimately show "job_in obs refs (mk_job obs refs S (int J) j)"
    using last by (simp add: job_in_def mk_job_def)
qed

lemma jobs_concat:
  assumes "1 \<le> S" "1 \<le> J" "(J - 1) * nat S \<le> length obs"
  shows "concat (map (\<lambda>j. job_range (mk_job obs refs S (int J) j)) [0..<J]) = [0..<length obs]"
proof -
  obtain k where k: "J = Suc k" using assms(2) by (cases J) simp_all
  have eq: "map (\<lambda>j. job_range (mk_job obs refs S (int J) j)) [0..<k]
        = map (\<lambda>j. [j * nat S..<Suc j * nat S]) [0..<k]"
  proof (rule map_cong [OF refl])
    fix j assume "j \<in> set [0..<k]"
    then have j: "j < J" "j \<noteq> J - 1" using k by simp_all
    show "job_range (mk_job obs refs S (int J) j) = [j * nat S..<Suc j * nat S]"
      using mk_job_range(1) [OF assms(1) j(1) assms(3), of refs] j(2) by simp
  qed
  have "concat (map (\<lambda>j. job_range (mk_job obs refs S (int J) j)) [0..<k])
        = concat (map (\<lambda>j. [j * nat S..<Suc j * nat S]) [0..<k])"
    by (simp only: eq)
  also have "\<dots> = [0..<k * nat S]" by (rule concat_blocks)
  finally have "concat (map (\<lambda>j. job_range (mk_job obs refs S (int J) j)) [0..<k]) = [0..<k * nat S]" .
  moreover have "job_range (mk_job obs refs S (int J) k) = [k * nat S..<length obs]"
    using mk_job_range(1) [OF assms(1) _ assms(3), of k refs] k by simp
  moreover have "[0..<k * nat S] @ [k * nat S..<length obs] = [0..<length obs]"
    using assms(3) k by (metis diff_Suc_1 le0 le_Suc_ex upt_add_eq_append)
  ultimately show ?thesis
    by (simp add: k del: mult_Suc of_nat_Suc)
qed

lemma make_queues_rr:
  assumes "resolve_batch_size (int (length obs)) (resolve_n_gpus E ng) bs = Inr S"
    and "n_jobs_of (int (length obs)) S = Inr J"
    and "1 \<le> resolve_n_gpus E ng"
  shows "make_queues E obs refs bs ng
         = Inr (rr_queues (nat (resolve_n_gpus E ng)) (mk_job obs refs S J) (nat J))"
proof -
  have G: "0 < nat (resolve_n_gpus E ng)" using assms(3) by simp
  show ?thesis
    using enqueue_jobs_upt [OF G, of "mk_job obs refs S J" "nat J"] assms(1) assms(2)
    by (simp add: make_queues_def Let_def)
qed

lemma make_queues_Inr:
  assumes "make_queues E obs refs bs ng = Inr queues"
  shows "\<exists>S J. resolve_batch_size (int (length obs)) (resolve_n_gpus E ng) bs = Inr S
           \<and> n_jobs_of (int (length obs)) S = Inr J
           \<and> queues = rr_queues (nat (resolve_n_gpus E ng)) (mk_job obs refs S J) (nat J)"
proof -
  from assms obtain S where S: "resolve_batch_size (int (length obs)) (resolve_n_gpus E ng) bs = Inr S"
    by (auto simp: make_queues_def Let_def split: sum.splits)
  from assms S obtain J where J: "n_jobs_of (int (length obs)) S = Inr J"
    by (auto simp: make_queues_def Let_def split: sum.splits)
  show ?thesis
  proof (cases "1 \<le> resolve_n_gpus E ng")
    case True
    from make_queues_rr [OF S J True, of refs] assms S J show ?thesis by simp
  next
    case False
    then have G0: "nat (resolve_n_gpus E ng) = 0" by simp
    have "nat J = 0"
    proof (rule ccontr)
      assume "nat J \<noteq> 0"
      then have "[0..<nat J] \<noteq> []" by simp
      from enqueue_jobs_no_queue [OF this, of "mk_job obs refs S J" 0] assms S J G0
      show False by (simp add: make_queues_def Let_def)
    qed
    with assms S J G0 have "queues = []"
      by (simp add: make_queues_def Let_def)
    with G0 S J \<open>nat J = 0\<close> show ?thesis by (simp add: rr_queues_def)
  qed
qed

lemma length_filter_mod:
  assumes "q < G"
  shows "length (filter (\<lambda>j. j mod G = q) [0..<n]) = n div G + (if q < n mod G then 1 else 0)"
proof (induction n)
  case 0
  show ?case by simp
next
  case (Suc n)
  have nG: "n mod G < G" using assms by (simp add: mod_less_divisor [of G n] gr_implies_not0 [of q G] Suc_lessI)
  show ?case
  proof (cases "Suc (n mod G) = G")
    case True
    then have "Suc n mod G = 0" "Suc n div G = Suc (n div G)"
      by (simp_all add: mod_Suc div_Suc)
    then show ?thesis using Suc.IH True assms by auto
  next
    case False
    then have "Suc n mod G = Suc (n mod G)" "Suc n div G = n div G"
      by (simp_all add: mod_Suc div_Suc)
    then show ?thesis using Suc.IH False assms nG by auto
  qed
qed

lemma rr_queues_nth:
  "q < G \<Longrightarrow> items (rr_queues G mk n ! q) = map mk (filter (\<lambda>j. j mod G = q) [0..<n])"
  by (simp add: rr_queues_def)

lemma rr_queues_balanced:
  assumes "q < G" "q' < G"
  shows "length (items (rr_queues G mk n ! q)) \<le> Suc (length (items (rr_queues G mk n ! q')))"
  using assms by (simp add: rr_queues_nth length_filter_mod)

lemma mset_concat_map:
  "mset (concat (map f xs)) = (\<Sum>x\<in>#mset xs. mset (f x))"
  by (induction xs) simp_all

lemma mset_concat_map_cong:
  "mset xs = mset ys \<Longrightarrow> mset (concat (map f xs)) = mset (concat (map f ys))"
  by (simp add: mset_concat_map)

lemma make_queues_example:
  "make_queues (env_ok 2) obs5 refs3 (Explicit 2) Auto = Inr queues5"
  by (simp add: make_queues_def resolve_batch_size_def resolve_n_gpus_def env_ok_def n_jobs_of_def
      tdiv_def obs5_def mk_job_def empty_queue_def put_def Let_def numeral_2_eq_2 queues5_def)

lemma nearest_of_valid:
  assumes "valid_assign asg 32 (length refs)" "refs \<noteq> []"
  shows "\<exists>k<length refs. nearest_of asg dfn refs ob = Some (k, dfn ob (refs ! k))
           \<and> (\<forall>k'<length refs. dfn ob (refs ! k) \<le> dfn ob (refs ! k'))"
proof -
  let ?ks = "concat (map (asg (length refs)) [0..<32])"
  from assms(1) have set: "set ?ks = {0..<length refs}" by (simp add: valid_assign_def)
  from assms(2) have "0 \<in> set ?ks" unfolding set by simp
  then have "\<not> (\<forall>k\<in>set ?ks. \<not> k < length refs)" using assms(2) by auto
  then have "unit_scan dfn refs ob ?ks \<noteq> None"
    using unit_scan_None [of dfn refs ob ?ks] by blast
  then obtain i d where s: "unit_scan dfn refs ob ?ks = Some (i, d)" by auto
  from unit_scan_Some [OF s] have i: "i < length refs" "d = dfn ob (refs ! i)"
    and mn: "\<forall>k\<in>set ?ks. k < length refs \<longrightarrow> d \<le> dfn ob (refs ! k)" by blast+
  have "\<forall>k'<length refs. dfn ob (refs ! i) \<le> dfn ob (refs ! k')"
    using mn i(2) unfolding set by simp
  with s i show ?thesis unfolding nearest_of_def by blast
qed

lemma fold_update_all:
  "length vs = length buf \<Longrightarrow> fold (\<lambda>(i, v) b. b[i := v]) (zip [0..<length buf] vs) buf = vs"
proof (rule nth_equalityI)
  assume l: "length vs = length buf"
  show "length (fold (\<lambda>(i, v) b. b[i := v]) (zip [0..<length buf] vs) buf) = length vs"
    using l by simp
  fix i assume "i < length (fold (\<lambda>(i, v) b. b[i := v]) (zip [0..<length buf] vs) buf)"
  then have i: "i < length buf" by simp
  show "fold (\<lambda>(i, v) b. b[i := v]) (zip [0..<length buf] vs) buf ! i = vs ! i"
    using fold_update_upt [of vs "length buf" 0 buf i] l i by simp
qed

lemma no_device_result:
  "n_devices E = 0 \<Longrightarrow> get_nearest E asg dfn obs refs bs mg ng = Some (Inl CudaSupportError)"
  by (simp add: get_nearest_def get_nearest_run_def)

lemma single_path_result:
  fixes dfn :: "'p \<Rightarrow> 'p \<Rightarrow> 'd::linorder"
  assumes "kernel_ok E 0 0 (int (length obs))" and "0 < n_devices E"
  shows "get_nearest E asg dfn obs refs bs False ng = Some (Inr (all_nearest asg dfn obs refs))"
proof -
  let ?res = "map (nearest_of asg dfn refs) obs"
  have a: "fold (\<lambda>(i, v) b. b[i := v])
             (zip [0..<length (replicate (length obs) (None :: nat option))] (map (map_option fst) ?res))
             (replicate (length obs) None) = map (map_option fst) ?res"
    by (rule fold_update_all) simp
  have b: "fold (\<lambda>(i, v) b. b[i := v])
             (zip [0..<length (replicate (length obs) (None :: 'd option))] (map (map_option snd) ?res))
             (replicate (length obs) None) = map (map_option snd) ?res"
    by (rule fold_update_all) simp
  show ?thesis
    using assms a b
    by (simp add: get_nearest_def get_nearest_run_def fresh_mem_def Let_def kernels_nearest
        all_nearest_def comp_def)
qed

lemma covers_iff: "0 \<le> j_start job \<Longrightarrow> covers job i \<longleftrightarrow> i \<in> set (job_range job)"
  by (auto simp: covers_def job_range_def)

lemma completed_all_no_faults:
  "no_faults E \<Longrightarrow> completed_all E cid qs = concat (map items qs)"
proof (induction qs arbitrary: cid)
  case Nil
  show ?case by simp
next
  case (Cons q qs)
  have "takeWhile (ok_job E cid) (items q) = items q"
    using Cons.prems by (simp add: no_faults_def ok_job_def)
  then show ?case using Cons by (simp add: completed_def no_faults_def)
qed

text \<open>The jobs of a call with at least one observation, a batch size and a device count of at least one.\<close>
lemma created_jobs:
  fixes obs refs :: "'p list"
  assumes "1 \<le> length obs" "1 \<le> S" "0 < G"
  defines "J \<equiv> length obs div min (nat S) (length obs)"
  defines "qs \<equiv> rr_queues G (mk_job obs refs S (int J)) J"
  shows "set (concat (map items qs)) = mk_job obs refs S (int J) ` {0..<J}"
    and "\<forall>job\<in>set (concat (map items qs)). job_in obs refs job"
    and "\<forall>i<length obs. \<exists>job\<in>set (concat (map items qs)). covers job i"
proof -
  let ?mk = "mk_job obs refs S (int J)"
  note nj = n_jobs_of_pos [OF assms(2) assms(1), folded J_def]
  have "mset (concat (map items qs)) = mset (map ?mk [0..<J])"
    unfolding qs_def by (rule mset_all_jobs_rr [OF assms(3)])
  then have "set (concat (map items qs)) = set (map ?mk [0..<J])" by (rule mset_eq_setD)
  then show set: "set (concat (map items qs)) = ?mk ` {0..<J}" by simp
  show jin: "\<forall>job\<in>set (concat (map items qs)). job_in obs refs job"
    unfolding set using mk_job_range(2) [OF assms(2) _ nj(3), of _ refs] by auto
  show "\<forall>i<length obs. \<exists>job\<in>set (concat (map items qs)). covers job i"
  proof (intro allI impI)
    fix i assume "i < length obs"
    then have "i \<in> set (concat (map (\<lambda>j. job_range (?mk j)) [0..<J]))"
      using jobs_concat [OF assms(2) nj(2) nj(3), of refs] by simp
    then obtain j where j: "j < J" "i \<in> set (job_range (?mk j))" by auto
    then have "?mk j \<in> set (concat (map items qs))" unfolding set by simp
    moreover from this jin have "0 \<le> j_start (?mk j)" by (auto simp: job_in_def)
    with j(2) have "covers (?mk j) i" by (simp add: covers_iff)
    ultimately show "\<exists>job\<in>set (concat (map items qs)). covers job i" by blast
  qed
qed

lemma multi_path_run:
  fixes obs refs :: "'p list" and dfn :: "'p \<Rightarrow> 'p \<Rightarrow> 'd::linorder"
  assumes "1 \<le> length obs"
    and "resolve_batch_size (int (length obs)) (resolve_n_gpus E ng) bs = Inr S"
    and "1 \<le> S"
    and "1 \<le> resolve_n_gpus E ng"
  defines "J \<equiv> length obs div min (nat S) (length obs)"
  defines "qs \<equiv> rr_queues (nat (resolve_n_gpus E ng)) (mk_job obs refs S (int J)) J"
  shows "make_queues E obs refs bs ng = Inr qs"
    and "0 < n_devices E \<Longrightarrow>
          \<exists>rs. get_nearest_run E asg dfn obs refs bs True ng
              = Some (Inr (rs, fold (run_job asg dfn) (completed_all E 0 qs) (fresh_mem (length obs))))
            \<and> length rs = length qs
            \<and> concat (map (\<lambda>r. snd (snd r)) rs) = completed_all E 0 qs"
proof -
  note nj = n_jobs_of_pos [OF assms(3) assms(1), folded J_def]
  show mq: "make_queues E obs refs bs ng = Inr qs"
    using make_queues_rr [OF assms(2) nj(1) assms(4), of refs] by (simp add: qs_def)
  have "list_all counted qs" unfolding qs_def by (rule rr_queues_counted)
  from run_workers_run [OF this, of E asg dfn 0 "fresh_mem (length obs)"]
  obtain rs where rs: "run_workers E asg dfn 0 qs (fresh_mem (length obs))
          = Some (rs, fold (run_job asg dfn) (completed_all E 0 qs) (fresh_mem (length obs)))"
    "length rs = length qs" "concat (map (\<lambda>r. snd (snd r)) rs) = completed_all E 0 qs"
    by blast
  then show "\<exists>rs. get_nearest_run E asg dfn obs refs bs True ng
              = Some (Inr (rs, fold (run_job asg dfn) (completed_all E 0 qs) (fresh_mem (length obs))))
            \<and> length rs = length qs
            \<and> concat (map (\<lambda>r. snd (snd r)) rs) = completed_all E 0 qs"
    if "0 < n_devices E"
    using mq that by (simp add: get_nearest_run_def Let_def)
qed

lemma multi_path_result:
  fixes obs refs :: "'p list" and dfn :: "'p \<Rightarrow> 'p \<Rightarrow> 'd::linorder"
  assumes "1 \<le> length obs"
    and "resolve_batch_size (int (length obs)) (resolve_n_gpus E ng) bs = Inr S"
    and "1 \<le> S"
    and "1 \<le> resolve_n_gpus E ng"
    and "no_faults E"
    and "0 < n_devices E"
  shows "get_nearest E asg dfn obs refs bs True ng = Some (Inr (all_nearest asg dfn obs refs))"
proof -
  define J where "J = length obs div min (nat S) (length obs)"
  define qs where "qs = rr_queues (nat (resolve_n_gpus E ng)) (mk_job obs refs S (int J)) J"
  let ?js = "concat (map items qs)"
  let ?m = "fold (run_job asg dfn) ?js (fresh_mem (length obs))"
  have G: "0 < nat (resolve_n_gpus E ng)" using assms(4) by simp
  note cj = created_jobs [OF assms(1) assms(3) G, of refs, folded J_def, folded qs_def]
  from multi_path_run(2) [OF assms(1-4) assms(6), of asg dfn refs, folded J_def, folded qs_def]
  obtain rs where "get_nearest_run E asg dfn obs refs bs True ng
              = Some (Inr (rs, fold (run_job asg dfn) (completed_all E 0 qs) (fresh_mem (length obs))))"
    by blast
  then have run: "get_nearest E asg dfn obs refs bs True ng = Some (Inr (out_idx ?m, out_dist ?m))"
    using completed_all_no_faults [OF assms(5), of 0 qs] by (simp add: get_nearest_def)
  have l0: "length (out_idx (fresh_mem (length obs) :: 'd mem)) = length obs"
    "length (out_dist (fresh_mem (length obs) :: 'd mem)) = length obs"
    by (simp_all add: fresh_mem_def)
  note nth = fold_run_job_nth [OF cj(2) l0, of asg dfn]
  have "out_idx ?m = map (\<lambda>ob. map_option fst (nearest_of asg dfn refs ob)) obs"
  proof (rule nth_equalityI)
    show "length (out_idx ?m) = length (map (\<lambda>ob. map_option fst (nearest_of asg dfn refs ob)) obs)"
      using l0 by simp
    fix i assume "i < length (out_idx ?m)"
    then have i: "i < length obs" using l0 by simp
    with cj(3) have "\<exists>job\<in>set ?js. covers job i" by simp
    then show "out_idx ?m ! i = map (\<lambda>ob. map_option fst (nearest_of asg dfn refs ob)) obs ! i"
      using nth [of i] i by simp
  qed
  moreover have "out_dist ?m = map (\<lambda>ob. map_option snd (nearest_of asg dfn refs ob)) obs"
  proof (rule nth_equalityI)
    show "length (out_dist ?m) = length (map (\<lambda>ob. map_option snd (nearest_of asg dfn refs ob)) obs)"
      using l0 by simp
    fix i assume "i < length (out_dist ?m)"
    then have i: "i < length obs" using l0 by simp
    with cj(3) have "\<exists>job\<in>set ?js. covers job i" by simp
    then show "out_dist ?m ! i = map (\<lambda>ob. map_option snd (nearest_of asg dfn refs ob)) obs ! i"
      using nth [of i] i by simp
  qed
  ultimately show ?thesis using run by (simp add: all_nearest_def)
qed

lemma all_nearest_correct:
  assumes "valid_assign asg 32 (length refs)" "refs \<noteq> []"
  shows "nearest_result dfn obs refs (all_nearest asg dfn obs refs)"
  unfolding nearest_result_def all_nearest_def
proof (intro conjI allI impI)
  fix i assume i: "i < length obs"
  from nearest_of_valid [OF assms, of dfn "obs ! i"] obtain k where
    "k < length refs" "nearest_of asg dfn refs (obs ! i) = Some (k, dfn (obs ! i) (refs ! k))"
    "\<forall>k'<length refs. dfn (obs ! i) (refs ! k) \<le> dfn (obs ! i) (refs ! k')" by blast
  then show "\<exists>k<length refs.
            fst (map (\<lambda>ob. map_option fst (nearest_of asg dfn refs ob)) obs,
                 map (\<lambda>ob. map_option snd (nearest_of asg dfn refs ob)) obs) ! i = Some k
          \<and> snd (map (\<lambda>ob. map_option fst (nearest_of asg dfn refs ob)) obs,
                 map (\<lambda>ob. map_option snd (nearest_of asg dfn refs ob)) obs) ! i
              = Some (dfn (obs ! i) (refs ! k))
          \<and> (\<forall>k'<length refs. dfn (obs ! i) (refs ! k) \<le> dfn (obs ! i) (refs ! k'))"
    using i by auto
qed simp_all

lemma valid_strided_3: "valid_assign (strided 32) 32 (length refs3)"
  by (simp add: refs3_def) code_simp

lemma no_faults_env_ok: "no_faults (env_ok n)"
  by (simp add: no_faults_def env_ok_def)

lemma worker_loop_empty:
  "unfinished_tasks q = 0 \<Longrightarrow> worker_loop E asg dfn cid q seen m = Some (Finished, q, seen, m)"
  by (subst worker_loop.simps) simp


lemma enqueue_jobs_error: "enqueue_jobs mk js st \<noteq> Inl ZeroDivisionError"
proof (induction js arbitrary: st)
  case Nil
  show ?case by simp
next
  case (Cons j js)
  obtain qid queues where "st = (qid, queues)" by (cases st)
  with Cons show ?case by (simp add: Let_def)
qed

lemma nearest_of_no_refs: "nearest_of asg dfn [] ob = None"
  by (simp add: nearest_of_def unit_scan_None)

lemma haversine_same [simp]: "haversine R p p = 0"
  by (simp add: haversine_def)






lemma completed_all_mem:
  "job \<in> set (completed_all E cid qs) \<Longrightarrow>
     \<exists>k<length qs. job \<in> set (items (qs ! k)) \<and> device_ok E (cid + k) \<and> ok_job E (cid + k) job"
proof (induction qs arbitrary: cid)
  case Nil
  then show ?case by simp
next
  case (Cons q qs)
  from Cons.prems consider "job \<in> set (completed E cid (items q))"
    | "job \<in> set (completed_all E (Suc cid) qs)" by auto
  then show ?case
  proof cases
    case 1
    then have "device_ok E cid" "job \<in> set (takeWhile (ok_job E cid) (items q))"
      by (auto simp: completed_def split: if_splits)
    then have "device_ok E cid" "job \<in> set (items q)" "ok_job E cid job"
      by (auto dest: set_takeWhileD)
    then have "0 < length (q # qs) \<and> job \<in> set (items ((q # qs) ! 0)) \<and> device_ok E (cid + 0)
               \<and> ok_job E (cid + 0) job" by simp
    then show ?thesis by blast
  next
    case 2
    from Cons.IH [OF 2] obtain k where "k < length qs" "job \<in> set (items (qs ! k))"
      "device_ok E (Suc cid + k)" "ok_job E (Suc cid + k) job" by blast
    then have "Suc k < length (q # qs) \<and> job \<in> set (items ((q # qs) ! Suc k))
               \<and> device_ok E (cid + Suc k) \<and> ok_job E (cid + Suc k) job" by simp
    then show ?thesis by blast
  qed
qed





















section \<open>The claims\<close>

text \<open>
  C2. With at least one observation, a resolved batch size \<open>S \<ge> 1\<close> and at least one
  device, the multi-device path creates \<open>J \<ge> 1\<close> jobs, each of which sits in exactly one
  queue; their ranges, taken in creation order, follow one another from \<open>0\<close> to \<open>N_OBS\<close>
  without gap or overlap, so that every observation index lies in exactly one range; the
  first \<open>J - 1\<close> ranges have size \<open>S\<close> and the last one ends at \<open>N_OBS\<close>.
\<close>
theorem job_ranges_partition:
  assumes "1 \<le> length obs_points"
    and "resolve_batch_size (int (length obs_points)) (resolve_n_gpus E n_gpus) batch_size = Inr S"
    and "1 \<le> S"
    and "1 \<le> resolve_n_gpus E n_gpus"
  shows "\<exists>queues J. make_queues E obs_points ref_points batch_size n_gpus = Inr queues
      \<and> n_jobs_of (int (length obs_points)) S = Inr (int J) \<and> 1 \<le> J
      \<and> mset (concat (map items queues)) = mset (map (mk_job obs_points ref_points S (int J)) [0..<J])
      \<and> concat (map (\<lambda>j. job_range (mk_job obs_points ref_points S (int J) j)) [0..<J])
          = [0..<length obs_points]
      \<and> mset (concat (map job_range (concat (map items queues)))) = mset [0..<length obs_points]
      \<and> (\<forall>j<J - 1. j_start (mk_job obs_points ref_points S (int J) j) = int j * S
                   \<and> j_end (mk_job obs_points ref_points S (int J) j) = int j * S + S)
      \<and> j_start (mk_job obs_points ref_points S (int J) (J - 1)) = int (J - 1) * S
      \<and> j_end (mk_job obs_points ref_points S (int J) (J - 1)) = int (length obs_points)"
proof -
  let ?N = "length obs_points" and ?G = "nat (resolve_n_gpus E n_gpus)"
  let ?J = "?N div min (nat S) ?N"
  let ?mk = "mk_job obs_points ref_points S (int ?J)"
  note nj = n_jobs_of_pos [OF assms(3) assms(1)]
  have G: "0 < ?G" using assms(4) by simp
  have mq: "make_queues E obs_points ref_points batch_size n_gpus = Inr (rr_queues ?G ?mk ?J)"
    using make_queues_rr [OF assms(2) nj(1) assms(4), of ref_points] by simp
  have all: "mset (concat (map items (rr_queues ?G ?mk ?J))) = mset (map ?mk [0..<?J])"
    by (rule mset_all_jobs_rr [OF G])
  have cc: "concat (map (\<lambda>j. job_range (?mk j)) [0..<?J]) = [0..<?N]"
    by (rule jobs_concat [OF assms(3) nj(2) nj(3)])
  have "mset (concat (map job_range (concat (map items (rr_queues ?G ?mk ?J)))))
        = mset (concat (map job_range (map ?mk [0..<?J])))"
    by (rule mset_concat_map_cong [OF all])
  also have "\<dots> = mset [0..<?N]" using cc by (simp only: map_map comp_def)
  finally have ms: "mset (concat (map job_range (concat (map items (rr_queues ?G ?mk ?J)))))
        = mset [0..<?N]" .
  have sizes: "\<forall>j<?J - 1. j_start (?mk j) = int j * S \<and> j_end (?mk j) = int j * S + S"
    by (auto simp: mk_job_def distrib_right)
  have lst: "j_start (?mk (?J - 1)) = int (?J - 1) * S" "j_end (?mk (?J - 1)) = int ?N"
    using nj(2) by (simp_all add: mk_job_def of_nat_diff)
  show ?thesis
    using mq nj(1) nj(2) all cc ms sizes lst by blast
qed

text \<open>
  C7. Whenever the multi-device path has built its queues, there are \<open>G\<close> of them, queue
  \<open>q\<close> holds exactly the jobs \<open>j\<close> with \<open>j mod G = q\<close>, in creation order, and the
  numbers of jobs of two queues differ by at most one.
\<close>
theorem round_robin_assignment:
  assumes "make_queues E obs_points ref_points batch_size n_gpus = Inr queues"
  shows "\<exists>S J. resolve_batch_size (int (length obs_points)) (resolve_n_gpus E n_gpus) batch_size = Inr S
      \<and> n_jobs_of (int (length obs_points)) S = Inr J
      \<and> length queues = nat (resolve_n_gpus E n_gpus)
      \<and> (\<forall>q<length queues.
            items (queues ! q)
            = map (mk_job obs_points ref_points S J) (filter (\<lambda>j. j mod length queues = q) [0..<nat J]))
      \<and> (\<forall>j<nat J. j mod length queues < length queues
            \<and> mk_job obs_points ref_points S J j \<in> set (items (queues ! (j mod length queues))))
      \<and> (\<forall>q<length queues. \<forall>q'<length queues.
            length (items (queues ! q)) \<le> Suc (length (items (queues ! q'))))"
proof -
  from make_queues_Inr [OF assms] obtain S J where
    S: "resolve_batch_size (int (length obs_points)) (resolve_n_gpus E n_gpus) batch_size = Inr S"
    and J: "n_jobs_of (int (length obs_points)) S = Inr J"
    and q: "queues = rr_queues (nat (resolve_n_gpus E n_gpus)) (mk_job obs_points ref_points S J) (nat J)"
    by blast
  let ?G = "nat (resolve_n_gpus E n_gpus)"
  have len: "length queues = ?G" by (simp add: q rr_queues_def)
  have G: "0 < ?G" if "0 < nat J"
  proof (rule ccontr)
    assume "\<not> 0 < ?G"
    then have G0: "?G = 0" by simp
    from that have "[0..<nat J] \<noteq> []" by simp
    from enqueue_jobs_no_queue [OF this, of "mk_job obs_points ref_points S J" 0] assms S J G0
    show False by (simp add: make_queues_def Let_def)
  qed
  have a: "\<forall>q<length queues. items (queues ! q)
            = map (mk_job obs_points ref_points S J) (filter (\<lambda>j. j mod length queues = q) [0..<nat J])"
    unfolding len by (simp add: q rr_queues_nth)
  have b: "\<forall>j<nat J. j mod length queues < length queues
            \<and> mk_job obs_points ref_points S J j \<in> set (items (queues ! (j mod length queues)))"
  proof (intro allI impI)
    fix j assume j: "j < nat J"
    then have "0 < ?G" using G by simp
    then have m: "j mod ?G < ?G" by simp
    then show "j mod length queues < length queues
            \<and> mk_job obs_points ref_points S J j \<in> set (items (queues ! (j mod length queues)))"
      unfolding len using j by (simp add: q rr_queues_nth)
  qed
  have c: "\<forall>q<length queues. \<forall>q'<length queues.
            length (items (queues ! q)) \<le> Suc (length (items (queues ! q')))"
    unfolding len using rr_queues_balanced [of _ ?G _ "mk_job obs_points ref_points S J" "nat J"]
    by (simp add: q)
  show ?thesis using S J len a b c by blast
qed


text \<open>C2, at five observations, batch size 2 and two devices.\<close>

theorem job_ranges_partition_witness:
  "1 \<le> length obs5
   \<and> resolve_batch_size (int (length obs5)) (resolve_n_gpus (env_ok 2) Auto) (Explicit 2) = Inr 2
   \<and> 1 \<le> resolve_n_gpus (env_ok 2) Auto
   \<and> (\<exists>queues. make_queues (env_ok 2) obs5 refs3 (Explicit 2) Auto = Inr queues
         \<and> mset (concat (map job_range (concat (map items queues)))) = mset [0..<length obs5])"
proof -
  have h1: "1 \<le> length obs5" by (simp add: obs5_def)
  have h2: "resolve_batch_size (int (length obs5)) (resolve_n_gpus (env_ok 2) Auto) (Explicit 2) = Inr 2"
    by (simp add: resolve_batch_size_def)
  have h3: "(1::int) \<le> 2" by simp
  have h4: "1 \<le> resolve_n_gpus (env_ok 2) Auto" by (simp add: resolve_n_gpus_def env_ok_def)
  from job_ranges_partition [OF h1 h2 h3 h4, of refs3] h1 h2 h4 show ?thesis by blast
qed

text \<open>C7, at the same input.\<close>

theorem round_robin_assignment_witness:
  "make_queues (env_ok 2) obs5 refs3 (Explicit 2) Auto = Inr queues5
   \<and> length queues5 = nat (resolve_n_gpus (env_ok 2) Auto)
   \<and> length (items (queues5 ! 0)) \<le> Suc (length (items (queues5 ! 1)))"
proof -
  note mq = make_queues_example
  from round_robin_assignment [OF mq] have
    len: "length queues5 = nat (resolve_n_gpus (env_ok 2) Auto)"
    and bal: "\<forall>q<length queues5. \<forall>q'<length queues5.
            length (items (queues5 ! q)) \<le> Suc (length (items (queues5 ! q')))"
    by blast+
  have "0 < length queues5" "1 < length queues5" by (simp_all add: queues5_def)
  with bal have "length (items (queues5 ! 0)) \<le> Suc (length (items (queues5 ! 1)))" by blast
  with mq len show ?thesis by blast
qed

text \<open>
  C1, amended. For a non-empty observation set and a non-empty reference set, when no
  device operation fails and either the single-device path is taken, or the multi-device
  path has a device count of at least one and a batch size that resolves to \<open>S \<ge> 1\<close>:
  on a host with at least one device, \<^verbatim>\<open>get_nearest\<close> returns a pair (indices, distances)
  such that for every observation position \<open>i\<close>, \<open>indices[i]\<close> is the index of a
  reference point nearest to \<open>observations[i]\<close> under the haversine distance, and
  \<open>distances[i]\<close> is that distance; on a host with no device it raises
  \<^verbatim>\<open>CudaSupportError\<close> at its first statement. The two kernels are the ones modelled
  from the spec, for any assignment of the references to the 32 units that partitions
  them.
\<close>

theorem nearest_postcondition:
  fixes obs_points ref_points :: "point list"
  assumes "obs_points \<noteq> []" and "ref_points \<noteq> []"
    and "valid_assign asg 32 (length ref_points)"
    and "no_faults E"
    and "multigpu \<Longrightarrow> 1 \<le> resolve_n_gpus E n_gpus"
    and "multigpu \<Longrightarrow> \<exists>S\<ge>1. resolve_batch_size (int (length obs_points)) (resolve_n_gpus E n_gpus) batch_size = Inr S"
  shows "if n_devices E = 0
         then get_nearest E asg (haversine R) obs_points ref_points batch_size multigpu n_gpus
                = Some (Inl CudaSupportError)
         else \<exists>indices distances.
                get_nearest E asg (haversine R) obs_points ref_points batch_size multigpu n_gpus
                  = Some (Inr (indices, distances))
              \<and> nearest_result (haversine R) obs_points ref_points (indices, distances)"
proof (cases "n_devices E = 0")
  case True
  from no_device_result [OF True] show ?thesis by (subst if_P [OF True])
next
  case False
  then have nd: "0 < n_devices E" by simp
  have "get_nearest E asg (haversine R) obs_points ref_points batch_size multigpu n_gpus
        = Some (Inr (all_nearest asg (haversine R) obs_points ref_points))"
  proof (cases multigpu)
    case True
    from assms(6) [OF True] obtain S where S: "1 \<le> S"
      "resolve_batch_size (int (length obs_points)) (resolve_n_gpus E n_gpus) batch_size = Inr S"
      by blast
    have N: "1 \<le> length obs_points" using assms(1) by (cases obs_points) simp_all
    show ?thesis
      using multi_path_result [OF N S(2) S(1) assms(5) [OF True] assms(4) nd] True by simp
  next
    case False
    have "kernel_ok E 0 0 (int (length obs_points))" using assms(4) by (simp add: no_faults_def)
    from single_path_result [OF this nd] False show ?thesis by simp
  qed
  moreover have "nearest_result (haversine R) obs_points ref_points
                   (all_nearest asg (haversine R) obs_points ref_points)"
    by (rule all_nearest_correct [OF assms(3) assms(2)])
  ultimately have "\<exists>indices distances.
                get_nearest E asg (haversine R) obs_points ref_points batch_size multigpu n_gpus
                  = Some (Inr (indices, distances))
              \<and> nearest_result (haversine R) obs_points ref_points (indices, distances)"
    by (metis surj_pair)
  then show ?thesis by (subst if_not_P [OF False])
qed

text \<open>C1, amended, at five observations, three references, two devices.\<close>

theorem nearest_postcondition_witness:
  "obs5 \<noteq> [] \<and> refs3 \<noteq> [] \<and> valid_assign (strided 32) 32 (length refs3) \<and> no_faults (env_ok 2)
   \<and> 1 \<le> resolve_n_gpus (env_ok 2) Auto
   \<and> resolve_batch_size (int (length obs5)) (resolve_n_gpus (env_ok 2) Auto) Auto = Inr 2
   \<and> 0 < n_devices (env_ok 2)
   \<and> (\<exists>indices distances.
         get_nearest (env_ok 2) (strided 32) (haversine 6371) obs5 refs3 Auto True Auto
           = Some (Inr (indices, distances))
         \<and> nearest_result (haversine 6371) obs5 refs3 (indices, distances))"
proof -
  have h1: "obs5 \<noteq> []" and h2: "refs3 \<noteq> []" by (simp_all add: obs5_def refs3_def)
  have h5: "1 \<le> resolve_n_gpus (env_ok 2) Auto" by (simp add: resolve_n_gpus_def env_ok_def)
  have h6: "resolve_batch_size (int (length obs5)) (resolve_n_gpus (env_ok 2) Auto) Auto = Inr 2"
    by (simp add: resolve_batch_size_def resolve_n_gpus_def env_ok_def obs5_def tdiv_def)
  then have h6': "\<exists>S\<ge>1. resolve_batch_size (int (length obs5)) (resolve_n_gpus (env_ok 2) Auto) Auto = Inr S"
    by simp
  have h7: "0 < n_devices (env_ok 2)" by (simp add: env_ok_def)
  then have nz: "n_devices (env_ok 2) \<noteq> 0" by simp
  have "\<exists>indices distances.
         get_nearest (env_ok 2) (strided 32) (haversine 6371) obs5 refs3 Auto True Auto
           = Some (Inr (indices, distances))
         \<and> nearest_result (haversine 6371) obs5 refs3 (indices, distances)"
    using nearest_postcondition [where multigpu = True and R = 6371 and batch_size = Auto,
      OF h1 h2 valid_strided_3 no_faults_env_ok h5 h6']
    by (subst (asm) if_not_P [OF nz])
  with h1 h2 valid_strided_3 no_faults_env_ok h5 h6 h7
  show ?thesis by blast
qed

text \<open>
  C1 as stated fails at one observation on two devices with the default arguments: the
  batch size resolves to \<open>int(1 / 2) = 0\<close>, and the job count divides by it. It also
  fails on a host with no device, where the single-device call raises at its first
  statement.
\<close>

theorem nearest_postcondition_counterexample:
  "obs1 \<noteq> [] \<and> refs3 \<noteq> []
   \<and> get_nearest (env_ok 2) (strided 32) (haversine 6371) obs1 refs3 Auto True Auto
       = Some (Inl ZeroDivisionError)
   \<and> get_nearest (env_ok 0) (strided 32) (haversine 6371) obs1 refs3 Auto False Auto
       = Some (Inl CudaSupportError)"
  by (simp add: get_nearest_def get_nearest_run_def make_queues_def resolve_batch_size_def
      resolve_n_gpus_def env_ok_def n_jobs_of_def tdiv_def obs1_def refs3_def Let_def)

text \<open>
  C3, amended. For a non-empty observation set, when no device operation fails, the
  multi-device path with at least one device and a batch size that resolves to
  \<open>S \<ge> 1\<close> returns the same indices and the same distances as the single-device path;
  in particular the multi-device path with one device and batch size \<^verbatim>\<open>"auto"\<close> does.
\<close>

theorem single_multi_agree:
  fixes dfn :: "'p \<Rightarrow> 'p \<Rightarrow> 'd::linorder"
  assumes "obs_points \<noteq> []" and "no_faults E"
  shows "(1 \<le> resolve_n_gpus E n_gpus
          \<and> (\<exists>S\<ge>1. resolve_batch_size (int (length obs_points)) (resolve_n_gpus E n_gpus) batch_size = Inr S)
          \<longrightarrow> get_nearest E asg dfn obs_points ref_points batch_size True n_gpus
              = get_nearest E asg dfn obs_points ref_points batch_size False n_gpus)
       \<and> (resolve_n_gpus E n_gpus = 1
          \<longrightarrow> get_nearest E asg dfn obs_points ref_points Auto True n_gpus
              = get_nearest E asg dfn obs_points ref_points Auto False n_gpus)"
proof (cases "n_devices E = 0")
  case True
  then show ?thesis by (simp add: no_device_result)
next
  case False
  then have nd: "0 < n_devices E" by simp
  show ?thesis
  proof (intro conjI impI)
  have N: "1 \<le> length obs_points" using assms(1) by (cases obs_points) simp_all
  have k: "kernel_ok E 0 0 (int (length obs_points))" using assms(2) by (simp add: no_faults_def)
  {
    assume "1 \<le> resolve_n_gpus E n_gpus
          \<and> (\<exists>S\<ge>1. resolve_batch_size (int (length obs_points)) (resolve_n_gpus E n_gpus) batch_size = Inr S)"
    then obtain S where G: "1 \<le> resolve_n_gpus E n_gpus" and S: "1 \<le> S"
      "resolve_batch_size (int (length obs_points)) (resolve_n_gpus E n_gpus) batch_size = Inr S"
      by blast
    show "get_nearest E asg dfn obs_points ref_points batch_size True n_gpus
              = get_nearest E asg dfn obs_points ref_points batch_size False n_gpus"
      using multi_path_result [OF N S(2) S(1) G assms(2) nd, where asg = asg and dfn = dfn
          and refs = ref_points]
        single_path_result [OF k nd, where asg = asg and dfn = dfn and refs = ref_points
          and bs = batch_size and ng = n_gpus]
      by simp
  }
  {
    assume G1: "resolve_n_gpus E n_gpus = 1"
    then have G: "1 \<le> resolve_n_gpus E n_gpus" by simp
    have S: "resolve_batch_size (int (length obs_points)) (resolve_n_gpus E n_gpus) Auto
             = Inr (int (length obs_points))"
      using G1 N by (simp add: resolve_batch_size_def tdiv_def)
    have S1: "1 \<le> int (length obs_points)" using N by simp
    show "get_nearest E asg dfn obs_points ref_points Auto True n_gpus
              = get_nearest E asg dfn obs_points ref_points Auto False n_gpus"
      using multi_path_result [OF N S S1 G assms(2) nd, where asg = asg and dfn = dfn
          and refs = ref_points]
        single_path_result [OF k nd, where asg = asg and dfn = dfn and refs = ref_points
          and bs = Auto and ng = n_gpus]
      by simp
  }
  qed
qed

text \<open>C3, amended, at five observations on two devices and on one device.\<close>

theorem single_multi_agree_witness:
  "obs5 \<noteq> [] \<and> no_faults (env_ok 4)
   \<and> 1 \<le> resolve_n_gpus (env_ok 4) (Explicit 2)
   \<and> resolve_batch_size (int (length obs5)) (resolve_n_gpus (env_ok 4) (Explicit 2)) Auto = Inr 2
   \<and> get_nearest (env_ok 4) (strided 32) (haversine 6371) obs5 refs3 Auto True (Explicit 2)
       = get_nearest (env_ok 4) (strided 32) (haversine 6371) obs5 refs3 Auto False (Explicit 2)
   \<and> resolve_n_gpus (env_ok 4) (Explicit 1) = 1
   \<and> get_nearest (env_ok 4) (strided 32) (haversine 6371) obs5 refs3 Auto True (Explicit 1)
       = get_nearest (env_ok 4) (strided 32) (haversine 6371) obs5 refs3 Auto False (Explicit 1)"
proof -
  have h1: "obs5 \<noteq> []" by (simp add: obs5_def)
  have h3: "1 \<le> resolve_n_gpus (env_ok 4) (Explicit 2)" by (simp add: resolve_n_gpus_def)
  have h4: "resolve_batch_size (int (length obs5)) (resolve_n_gpus (env_ok 4) (Explicit 2)) Auto = Inr 2"
    by (simp add: resolve_batch_size_def resolve_n_gpus_def obs5_def tdiv_def)
  have h5: "resolve_n_gpus (env_ok 4) (Explicit 1) = 1" by (simp add: resolve_n_gpus_def)
  from single_multi_agree [OF h1 no_faults_env_ok [of 4], where n_gpus = "Explicit 2"
      and batch_size = Auto and asg = "strided 32" and dfn = "haversine 6371" and ref_points = refs3]
    h3 h4
  have a: "get_nearest (env_ok 4) (strided 32) (haversine 6371) obs5 refs3 Auto True (Explicit 2)
       = get_nearest (env_ok 4) (strided 32) (haversine 6371) obs5 refs3 Auto False (Explicit 2)"
    by simp
  from single_multi_agree [OF h1 no_faults_env_ok [of 4], where n_gpus = "Explicit 1"
      and batch_size = Auto and asg = "strided 32" and dfn = "haversine 6371" and ref_points = refs3]
    h5
  have b: "get_nearest (env_ok 4) (strided 32) (haversine 6371) obs5 refs3 Auto True (Explicit 1)
       = get_nearest (env_ok 4) (strided 32) (haversine 6371) obs5 refs3 Auto False (Explicit 1)"
    by simp
  from h1 no_faults_env_ok h3 h4 a h5 b show ?thesis by blast
qed

text \<open>
  C3 as stated fails at two observations and four devices: the multi-device path raises,
  the single-device path returns.
\<close>

theorem single_multi_agree_counterexample:
  "get_nearest (env_ok 4) (strided 32) (haversine 6371) obs2 refs3 Auto True (Explicit 4)
     = Some (Inl ZeroDivisionError)
   \<and> get_nearest (env_ok 4) (strided 32) (haversine 6371) obs2 refs3 Auto False (Explicit 4)
     = Some (Inr (all_nearest (strided 32) (haversine 6371) obs2 refs3))"
proof -
  have "kernel_ok (env_ok 4) 0 0 (int (length obs2))" "0 < n_devices (env_ok 4)"
    by (simp_all add: env_ok_def)
  from single_path_result [OF this]
  have "get_nearest (env_ok 4) (strided 32) (haversine 6371) obs2 refs3 Auto False (Explicit 4)
     = Some (Inr (all_nearest (strided 32) (haversine 6371) obs2 refs3))" .
  moreover have "get_nearest (env_ok 4) (strided 32) (haversine 6371) obs2 refs3 Auto True (Explicit 4)
     = Some (Inl ZeroDivisionError)"
    by (simp add: get_nearest_def get_nearest_run_def make_queues_def resolve_batch_size_def
      resolve_n_gpus_def n_jobs_of_def tdiv_def obs2_def Let_def env_ok_def)
  ultimately show ?thesis by blast
qed



text \<open>
  C4, amended. On a host with at least one device, the multi-device call raises
  ZeroDivisionError exactly when the device count is 0 under batch size \<^verbatim>\<open>"auto"\<close>
  (which then is a device count given as 0, since the count of the devices of the host
  is not 0), or the batch size resolves to \<open>S\<close> with \<open>min(S, N_OBS) = 0\<close>, that is when
  \<open>S = 0\<close>, or when there is no observation and \<open>S \<ge> 0\<close>; in particular under
  \<^verbatim>\<open>"auto"\<close> with \<open>N_OBS < G\<close>. The error is raised where the job count is computed: no
  queue exists yet, no job is created, no worker is started. On a host with no device,
  every call raises \<^verbatim>\<open>CudaSupportError\<close> at its first statement instead.
\<close>

theorem zero_batch_size_raises:
  "(get_nearest E asg dfn obs_points ref_points batch_size True n_gpus = Some (Inl ZeroDivisionError)
      \<longleftrightarrow> 0 < n_devices E
          \<and> ((batch_size = Auto \<and> resolve_n_gpus E n_gpus = 0)
             \<or> (\<exists>S. resolve_batch_size (int (length obs_points)) (resolve_n_gpus E n_gpus) batch_size = Inr S
                    \<and> min S (int (length obs_points)) = 0)))
   \<and> (0 < n_devices E \<longrightarrow> (resolve_n_gpus E n_gpus = 0 \<longleftrightarrow> n_gpus = Explicit 0))
   \<and> (0 < n_devices E \<longrightarrow>
        (make_queues E obs_points ref_points batch_size n_gpus = Inl ZeroDivisionError
         \<longleftrightarrow> get_nearest E asg dfn obs_points ref_points batch_size True n_gpus
               = Some (Inl ZeroDivisionError)))
   \<and> (0 < n_devices E \<and> 1 \<le> resolve_n_gpus E n_gpus
        \<and> int (length obs_points) < resolve_n_gpus E n_gpus
      \<longrightarrow> get_nearest E asg dfn obs_points ref_points Auto True n_gpus = Some (Inl ZeroDivisionError))
   \<and> (n_devices E = 0
      \<longrightarrow> get_nearest E asg dfn obs_points ref_points batch_size multigpu n_gpus
            = Some (Inl CudaSupportError))"
proof -
  let ?G = "resolve_n_gpus E n_gpus" and ?N = "int (length obs_points)"
  let ?cond = "(batch_size = Auto \<and> ?G = 0)
          \<or> (\<exists>S. resolve_batch_size ?N ?G batch_size = Inr S \<and> min S ?N = 0)"
  have run: "get_nearest E asg dfn obs_points ref_points bs True n_gpus = Some (Inl err)
             \<longleftrightarrow> make_queues E obs_points ref_points bs n_gpus = Inl err"
    if nd: "0 < n_devices E" for bs err
  proof (cases "make_queues E obs_points ref_points bs n_gpus")
    case (Inl e)
    then show ?thesis using nd by (simp add: get_nearest_def get_nearest_run_def Let_def)
  next
    case (Inr queues)
    from make_queues_Inr [OF Inr] have "list_all counted queues"
      using rr_queues_counted by auto
    from run_workers_run [OF this, of E asg dfn 0 "fresh_mem (length obs_points)"]
    obtain rs m where "run_workers E asg dfn 0 queues (fresh_mem (length obs_points)) = Some (rs, m)"
      by blast
    with Inr show ?thesis using nd by (simp add: get_nearest_def get_nearest_run_def Let_def)
  qed
  have none: "get_nearest E asg dfn obs_points ref_points bs mg n_gpus = Some (Inl CudaSupportError)"
    if "n_devices E = 0" for bs mg
    using that by (rule no_device_result)
  have mq: "make_queues E obs_points ref_points batch_size n_gpus = Inl ZeroDivisionError \<longleftrightarrow> ?cond"
    by (cases batch_size)
       (auto simp: make_queues_def Let_def resolve_batch_size_def n_jobs_of_def enqueue_jobs_error
             split: sum.splits if_splits prod.splits)
  have auto0: "make_queues E obs_points ref_points Auto n_gpus = Inl ZeroDivisionError"
    if "1 \<le> ?G" "?N < ?G"
  proof -
    have "tdiv ?N ?G = 0" using that by (simp add: tdiv_def)
    then show ?thesis using that
      by (simp add: make_queues_def Let_def resolve_batch_size_def n_jobs_of_def)
  qed
  have zero: "0 < n_devices E \<longrightarrow> (?G = 0 \<longleftrightarrow> n_gpus = Explicit 0)"
    by (cases n_gpus) (simp_all add: resolve_n_gpus_def)
  have a: "get_nearest E asg dfn obs_points ref_points batch_size True n_gpus
             = Some (Inl ZeroDivisionError) \<longleftrightarrow> 0 < n_devices E \<and> ?cond"
  proof (cases "n_devices E = 0")
    case True
    with none [OF True, of batch_size True] show ?thesis by simp
  next
    case False
    then have "0 < n_devices E" by simp
    with run [OF this, of batch_size ZeroDivisionError] mq show ?thesis by simp
  qed
  have b: "0 < n_devices E \<longrightarrow>
        (make_queues E obs_points ref_points batch_size n_gpus = Inl ZeroDivisionError
         \<longleftrightarrow> get_nearest E asg dfn obs_points ref_points batch_size True n_gpus
               = Some (Inl ZeroDivisionError))"
    using run by blast
  have c: "0 < n_devices E \<and> 1 \<le> ?G \<and> ?N < ?G
      \<longrightarrow> get_nearest E asg dfn obs_points ref_points Auto True n_gpus = Some (Inl ZeroDivisionError)"
    using run auto0 by blast
  have d: "n_devices E = 0
      \<longrightarrow> get_nearest E asg dfn obs_points ref_points batch_size multigpu n_gpus
            = Some (Inl CudaSupportError)"
    using none by blast
  show ?thesis by (intro conjI a zero b c d)
qed

text \<open>C4, amended, at three observations on four devices, batch size \<^verbatim>\<open>"auto"\<close>.\<close>

theorem zero_batch_size_raises_witness:
  "0 < n_devices (env_ok 4)
   \<and> 1 \<le> resolve_n_gpus (env_ok 4) Auto \<and> int (length obs3) < resolve_n_gpus (env_ok 4) Auto
   \<and> get_nearest (env_ok 4) (strided 32) (haversine 6371) obs3 refs3 Auto True Auto
       = Some (Inl ZeroDivisionError)
   \<and> make_queues (env_ok 4) obs3 refs3 Auto Auto = Inl ZeroDivisionError"
proof -
  have h: "0 < n_devices (env_ok 4)" "1 \<le> resolve_n_gpus (env_ok 4) Auto"
    "int (length obs3) < resolve_n_gpus (env_ok 4) Auto"
    by (simp_all add: resolve_n_gpus_def env_ok_def obs3_def)
  note z = zero_batch_size_raises [of "env_ok 4" "strided 32" "haversine 6371" obs3 refs3 Auto Auto]
  from z h have a: "get_nearest (env_ok 4) (strided 32) (haversine 6371) obs3 refs3 Auto True Auto
       = Some (Inl ZeroDivisionError)" by blast
  with z h have "make_queues (env_ok 4) obs3 refs3 Auto Auto = Inl ZeroDivisionError" by blast
  with h a show ?thesis by blast
qed

text \<open>
  C4 as stated fails: a negative batch size raises nothing; no job is created, no worker
  has anything to do, and the call gives back the two output arrays as they were
  allocated.
\<close>

theorem zero_batch_size_raises_counterexample:
  "get_nearest (env_ok 2) (strided 32) (haversine 6371) obs3 refs3 (Explicit (- 1)) True Auto
     = Some (Inr ([None, None, None], [None, None, None]))"
  by (simp add: get_nearest_def get_nearest_run_def make_queues_def resolve_batch_size_def
      resolve_n_gpus_def n_jobs_of_def tdiv_def obs3_def Let_def env_ok_def empty_queue_def
      get_nearest_multi_def worker_loop_empty fresh_mem_def numeral_2_eq_2 numeral_3_eq_3)




text \<open>
  C5, amended. With at least one observation and a device count above the number of
  observations, an explicit batch size \<open>S \<ge> 1\<close>, a non-empty reference set and no
  failing device operation: the queues at the positions from \<open>N_OBS\<close> on receive no job,
  and their workers return at once, having run no iteration and stored nothing; on a
  host with at least one device the multi-device call returns complete and correct
  results, on a host with no device it raises \<^verbatim>\<open>CudaSupportError\<close> at its first
  statement.
\<close>

theorem fewer_observations_than_devices:
  fixes obs_points ref_points :: "point list"
  assumes "obs_points \<noteq> []"
    and "int (length obs_points) < resolve_n_gpus E n_gpus"
    and "1 \<le> S"
    and "ref_points \<noteq> []"
    and "valid_assign asg 32 (length ref_points)"
    and "no_faults E"
  shows "\<exists>queues.
           make_queues E obs_points ref_points (Explicit S) n_gpus = Inr queues
         \<and> length queues = nat (resolve_n_gpus E n_gpus)
         \<and> length obs_points < length queues
         \<and> (\<forall>c<length queues. length obs_points \<le> c \<longrightarrow>
               items (queues ! c) = []
             \<and> (\<forall>m. get_nearest_multi E asg (haversine R) (queues ! c) c m
                      = Some (Finished, queues ! c, [], m)))
         \<and> (if n_devices E = 0
            then get_nearest E asg (haversine R) obs_points ref_points (Explicit S) True n_gpus
                   = Some (Inl CudaSupportError)
            else \<exists>indices distances.
                   get_nearest E asg (haversine R) obs_points ref_points (Explicit S) True n_gpus
                     = Some (Inr (indices, distances))
                 \<and> nearest_result (haversine R) obs_points ref_points (indices, distances))"
proof -
  define J where "J = length obs_points div min (nat S) (length obs_points)"
  define G where "G = nat (resolve_n_gpus E n_gpus)"
  define qs where "qs = rr_queues G (mk_job obs_points ref_points S (int J)) J"
  have N: "1 \<le> length obs_points" using assms(1) by (cases obs_points) simp_all
  have G1: "1 \<le> resolve_n_gpus E n_gpus" using assms(2) N by linarith
  have NG: "length obs_points < G" using assms(2) by (simp add: G_def)
  have rbs: "resolve_batch_size (int (length obs_points)) (resolve_n_gpus E n_gpus) (Explicit S) = Inr S"
    by (simp add: resolve_batch_size_def)
  note mp1 = multi_path_run(1) [OF N rbs assms(3) G1, where refs = ref_points, folded J_def,
      folded G_def, folded qs_def]
  have len: "length qs = G" by (simp add: qs_def rr_queues_def)
  have JN: "J \<le> length obs_points" unfolding J_def by (rule div_le_dividend)
  have empty: "\<forall>c<length qs. length obs_points \<le> c \<longrightarrow>
               items (qs ! c) = []
             \<and> (\<forall>m. get_nearest_multi E asg (haversine R) (qs ! c) c m = Some (Finished, qs ! c, [], m))"
  proof (intro allI impI)
    fix c assume c: "c < length qs" "length obs_points \<le> c"
    have "filter (\<lambda>j. j mod G = c) [0..<J] = []"
    proof -
      have "j mod G \<noteq> c" if "j < J" for j
      proof -
        from that JN c(2) have "j < c" by simp
        moreover from this c(1) len have "j mod G = j" by simp
        ultimately show ?thesis by simp
      qed
      then show ?thesis by (simp add: filter_empty_conv)
    qed
    then have q: "qs ! c = \<lparr>items = [], unfinished_tasks = 0\<rparr>"
      using c(1) len by (simp add: qs_def rr_queues_def)
    have "device_ok E c" using assms(6) by (simp add: no_faults_def)
    then show "items (qs ! c) = []
             \<and> (\<forall>m. get_nearest_multi E asg (haversine R) (qs ! c) c m = Some (Finished, qs ! c, [], m))"
      using q by (simp add: get_nearest_multi_def worker_loop_empty)
  qed
  have nr: "nearest_result (haversine R) obs_points ref_points
              (fst (all_nearest asg (haversine R) obs_points ref_points),
               snd (all_nearest asg (haversine R) obs_points ref_points))"
    using all_nearest_correct [OF assms(5) assms(4), of "haversine R" obs_points] by simp
  have call: "if n_devices E = 0
            then get_nearest E asg (haversine R) obs_points ref_points (Explicit S) True n_gpus
                   = Some (Inl CudaSupportError)
            else \<exists>indices distances.
                   get_nearest E asg (haversine R) obs_points ref_points (Explicit S) True n_gpus
                     = Some (Inr (indices, distances))
                 \<and> nearest_result (haversine R) obs_points ref_points (indices, distances)"
  proof (cases "n_devices E = 0")
    case True
    from no_device_result [OF True] show ?thesis by (subst if_P [OF True])
  next
    case False
    then have nd: "0 < n_devices E" by simp
    have res: "get_nearest E asg (haversine R) obs_points ref_points (Explicit S) True n_gpus
          = Some (Inr (all_nearest asg (haversine R) obs_points ref_points))"
      by (rule multi_path_result [OF N rbs assms(3) G1 assms(6) nd])
    then have "get_nearest E asg (haversine R) obs_points ref_points (Explicit S) True n_gpus
          = Some (Inr (fst (all_nearest asg (haversine R) obs_points ref_points),
                       snd (all_nearest asg (haversine R) obs_points ref_points)))"
      by simp
    with nr have "\<exists>indices distances.
                   get_nearest E asg (haversine R) obs_points ref_points (Explicit S) True n_gpus
                     = Some (Inr (indices, distances))
                 \<and> nearest_result (haversine R) obs_points ref_points (indices, distances)"
      by blast
    then show ?thesis by (subst if_not_P [OF False])
  qed
  have lenG: "length qs = nat (resolve_n_gpus E n_gpus)" using len by (simp add: G_def)
  have lt: "length obs_points < length qs" using NG len by simp
  show ?thesis
    by (rule exI [of _ qs]) (intro conjI mp1 lenG lt empty call)
qed

text \<open>C5, amended, at three observations on four devices with batch size 1.\<close>

theorem fewer_observations_than_devices_witness:
  "obs3 \<noteq> [] \<and> int (length obs3) < resolve_n_gpus (env_ok 4) Auto \<and> refs3 \<noteq> []
   \<and> valid_assign (strided 32) 32 (length refs3) \<and> no_faults (env_ok 4)
   \<and> 0 < n_devices (env_ok 4)
   \<and> (\<exists>indices distances.
         get_nearest (env_ok 4) (strided 32) (haversine 6371) obs3 refs3 (Explicit 1) True Auto
           = Some (Inr (indices, distances))
         \<and> nearest_result (haversine 6371) obs3 refs3 (indices, distances))"
proof -
  have h1: "obs3 \<noteq> []" and h4: "refs3 \<noteq> []" by (simp_all add: obs3_def refs3_def)
  have h2: "int (length obs3) < resolve_n_gpus (env_ok 4) Auto"
    by (simp add: resolve_n_gpus_def env_ok_def obs3_def)
  have h3: "(1::int) \<le> 1" by simp
  have h7: "0 < n_devices (env_ok 4)" by (simp add: env_ok_def)
  then have nz: "n_devices (env_ok 4) \<noteq> 0" by simp
  from fewer_observations_than_devices [OF h1 h2 h3 h4 valid_strided_3 no_faults_env_ok,
      where R = 6371]
  have "if n_devices (env_ok 4) = 0
        then get_nearest (env_ok 4) (strided 32) (haversine 6371) obs3 refs3 (Explicit 1) True Auto
               = Some (Inl CudaSupportError)
        else \<exists>indices distances.
               get_nearest (env_ok 4) (strided 32) (haversine 6371) obs3 refs3 (Explicit 1) True Auto
                 = Some (Inr (indices, distances))
             \<and> nearest_result (haversine 6371) obs3 refs3 (indices, distances)"
    by blast
  then have "\<exists>indices distances.
         get_nearest (env_ok 4) (strided 32) (haversine 6371) obs3 refs3 (Explicit 1) True Auto
           = Some (Inr (indices, distances))
         \<and> nearest_result (haversine 6371) obs3 refs3 (indices, distances)"
    by (subst (asm) if_not_P [OF nz])
  with h1 h2 h4 h7 valid_strided_3 no_faults_env_ok [of 4] show ?thesis by blast
qed

text \<open>
  C5 as stated fails at three observations on four devices with the default batch size:
  it resolves to \<open>int(3 / 4) = 0\<close>, and the call raises. It also fails with a device
  count of 4 and batch size 1 on a host with no device, where the call raises at its
  first statement.
\<close>

theorem fewer_observations_than_devices_counterexample:
  "int (length obs3) < resolve_n_gpus (env_ok 4) Auto
   \<and> get_nearest (env_ok 4) (strided 32) (haversine 6371) obs3 refs3 Auto True Auto
       = Some (Inl ZeroDivisionError)
   \<and> int (length obs3) < resolve_n_gpus (env_ok 0) (Explicit 4)
   \<and> get_nearest (env_ok 0) (strided 32) (haversine 6371) obs3 refs3 (Explicit 1) True (Explicit 4)
       = Some (Inl CudaSupportError)"
  by (simp add: get_nearest_def get_nearest_run_def make_queues_def resolve_batch_size_def
      resolve_n_gpus_def env_ok_def n_jobs_of_def tdiv_def obs3_def Let_def)






end
